theory Spec2Isabelle
  imports Complex_Main "HOL-Library.Word"
begin

unbundle bit_operations_syntax

section \<open>Data model of pam.c\<close>

text \<open>
  A value of the C types \<^verbatim>\<open>float\<close> and \<^verbatim>\<open>double\<close> is modelled by the real number it
  denotes. Comparisons, copies and the initialisation with a constant are exact. An
  arithmetic operation of pam.c rounds its exact result to the format in which C evaluates it,
  to the nearest value of that format and to the even significand on a tie: \<open>fl32\<close> rounds
  to the 24 significant bits of binary32, \<open>fl64\<close> to the 53 bits of binary64. Each
  operation is evaluated in the format of its type (\<^verbatim>\<open>FLT_EVAL_METHOD\<close> 0). The exponent is
  not bounded in the model: overflow to infinity and NaN are outside it, and so is the loss
  of precision below the smallest normal number, which no sum of two values of a format
  suffers.

  Behaviour that C leaves undefined is a value of the model: a read or a write outside an
  array or an allocated block and a shift by a count outside \<open>0..31\<close> end the computation
  with a \<open>fault\<close>. Loop counters that start at 0 and count upwards are natural numbers; the
  other \<^verbatim>\<open>int\<close> values are integers. The colour counter is compared with \<^verbatim>\<open>maxacolors\<close> at
  each increment and would leave the range of \<^verbatim>\<open>int\<close> only on an image of \<open>2\<^sup>3\<^sup>1\<close> distinct
  colours scanned with the largest \<^verbatim>\<open>maxacolors\<close>; that case is outside the model.
\<close>

datatype fault = Undefined_read | Undefined_write | Undefined_shift

subsection \<open>Rounding to a floating-point format\<close>

text \<open>
  \<open>round_even y\<close> is the integer nearest to \<open>y\<close>, the even one of the two when \<open>y\<close> lies
  halfway. \<open>round_to p x\<close> rounds \<open>x\<close> to \<open>p\<close> significant bits: with
  \<open>2\<^sup>e \<le> \<bar>x\<bar> < 2\<^sup>e\<^sup>+\<^sup>1\<close> the values of the format around \<open>x\<close> are the integer
  multiples of \<open>2\<^sup>e\<^sup>-\<^sup>p\<^sup>+\<^sup>1\<close>.
\<close>

definition round_even :: "real \<Rightarrow> int" where
  "round_even y =
     (let f = \<lfloor>y\<rfloor>
      in if y - of_int f < 1 / 2 then f
         else if 1 / 2 < y - of_int f then f + 1
         else if even f then f else f + 1)"

definition round_to :: "nat \<Rightarrow> real \<Rightarrow> real" where
  "round_to p x =
     (if x = 0 then 0
      else let e = \<lfloor>log 2 \<bar>x\<bar>\<rfloor>; u = 2 powi (e - int p + 1)
           in u * of_int (round_even (x / u)))"

definition fl32 :: "real \<Rightarrow> real" where
  "fl32 = round_to 24"

definition fl64 :: "real \<Rightarrow> real" where
  "fl64 = round_to 53"

text \<open>
  \<^verbatim>\<open>f_pixel\<close> (pam.h): four float components. The C field names \<^verbatim>\<open>a r g b\<close> carry the
  suffix \<open>_f\<close> here, and those of \<^verbatim>\<open>rgb_pixel\<close> the suffix \<open>_rgb\<close>, since both structs use
  the same four names.
\<close>

record f_pixel =
  a_f :: real
  r_f :: real
  g_f :: real
  b_f :: real

text \<open>\<^verbatim>\<open>colormap_item\<close> and \<^verbatim>\<open>colormap\<close> (pam.h). The palette pointer is modelled by the
  array it points to; \<^verbatim>\<open>colors\<close> is the C \<^verbatim>\<open>int\<close> stored beside it.\<close>

record colormap_item =
  acolor :: f_pixel

record colormap =
  palette :: "colormap_item list"
  colors :: int

section \<open>Nearest-colour search: best_color_index\<close>

text \<open>\<^verbatim>\<open>acolormap[i]\<close>: the array read, undefined outside the array.\<close>

definition palette_at :: "colormap_item list \<Rightarrow> int \<Rightarrow> fault + colormap_item" where
  "palette_at acolormap i =
     (if 0 \<le> i \<and> nat i < length acolormap then Inr (acolormap ! nat i)
      else Inl Undefined_read)"

text \<open>
  The body of the \<^verbatim>\<open>for\<close> loop (pam.c lines 34-45) on the pair \<open>(ind, dist)\<close>;
  \<^verbatim>\<open>continue\<close> leaves the pair as it is. \<open>colordifference\<close> is the metric of pam.h, a
  parameter of the model. The sum \<^verbatim>\<open>newdist+1.f/1024.f\<close> of line 40 is a \<^verbatim>\<open>float\<close> sum: the
  quotient \<open>1/1024\<close> is a power of two and exact, the sum is rounded to binary32 before it
  is compared with \<^verbatim>\<open>dist\<close>.
\<close>

definition scan_step ::
  "(f_pixel \<Rightarrow> f_pixel \<Rightarrow> real) \<Rightarrow> f_pixel \<Rightarrow> bool \<Rightarrow> colormap_item \<Rightarrow> int
     \<Rightarrow> int \<times> real \<Rightarrow> int \<times> real" where
  "scan_step colordifference px iebug item i st =
     (let ind = fst st; dist = snd st;
          newdist = colordifference px (acolor item)
      in if newdist < dist then
           if iebug \<and> a_f (acolor item) < 1 \<and> fl32 (newdist + 1 / 1024) > dist
           then (ind, dist)
           else (i, newdist)
         else (ind, dist))"

text \<open>The loop \<^verbatim>\<open>for(int i = 1; i < numcolors; i++)\<close>, entered at \<open>i\<close>.\<close>

function best_color_loop ::
  "(f_pixel \<Rightarrow> f_pixel \<Rightarrow> real) \<Rightarrow> f_pixel \<Rightarrow> colormap_item list \<Rightarrow> int \<Rightarrow> bool
     \<Rightarrow> int \<Rightarrow> int \<times> real \<Rightarrow> fault + int \<times> real" where
  "best_color_loop colordifference px acolormap numcolors iebug i st =
     (if i < numcolors then
        (case palette_at acolormap i of
           Inl e \<Rightarrow> Inl e
         | Inr item \<Rightarrow>
             best_color_loop colordifference px acolormap numcolors iebug (i + 1)
               (scan_step colordifference px iebug item i st))
      else Inr st)"
  by pat_completeness auto
termination
  by (relation "measure (\<lambda>(colordifference, px, acolormap, numcolors, iebug, i, st).
        nat (numcolors - i))") auto

text \<open>
  \<^verbatim>\<open>best_color_index\<close>. The optional output pointer \<^verbatim>\<open>dist_out\<close> is modelled by the
  content of the cell it points to: \<open>None\<close> is the null pointer, \<open>Some d\<close> a cell holding
  \<open>d\<close>. The result is the returned index together with the cell after the call.
\<close>

definition best_color_index ::
  "(f_pixel \<Rightarrow> f_pixel \<Rightarrow> real) \<Rightarrow> f_pixel \<Rightarrow> colormap \<Rightarrow> real \<Rightarrow> real option
     \<Rightarrow> fault + int \<times> real option" where
  "best_color_index colordifference px cmap min_opaque_val dist_out =
     (let acolormap = palette cmap;
          numcolors = colors cmap;
          ind = 0;
          iebug = a_f px > min_opaque_val
      in case palette_at acolormap 0 of
           Inl e \<Rightarrow> Inl e
         | Inr item0 \<Rightarrow>
             (case best_color_loop colordifference px acolormap numcolors iebug 1
                     (ind, colordifference px (acolor item0)) of
                Inl e \<Rightarrow> Inl e
              | Inr (ind', dist') \<Rightarrow>
                  Inr (ind', case dist_out of None \<Rightarrow> None | Some old \<Rightarrow> Some dist')))"

text \<open>\<^verbatim>\<open>pam_colormap\<close>: a zeroed palette array of \<open>colors\<close> entries.\<close>

definition pam_colormap :: "int \<Rightarrow> colormap" where
  "pam_colormap n =
     \<lparr>palette = replicate (nat n) \<lparr>acolor = \<lparr>a_f = 0, r_f = 0, g_f = 0, b_f = 0\<rparr>\<rparr>,
      colors = n\<rparr>"



text \<open>
  The loop invariant of the search: the incumbent index is a slot of the array below
  \<open>bound\<close>, and the incumbent distance is the distance of the query to that slot.
\<close>

definition incumbent ::
  "(f_pixel \<Rightarrow> f_pixel \<Rightarrow> real) \<Rightarrow> f_pixel \<Rightarrow> colormap_item list \<Rightarrow> int \<Rightarrow> int \<times> real
     \<Rightarrow> bool" where
  "incumbent cd px acolormap bound st =
     (0 \<le> fst st \<and> fst st < bound \<and> nat (fst st) < length acolormap \<and>
      snd st = cd px (acolor (acolormap ! nat (fst st))))"

subsection \<open>Sample inputs of the search\<close>

text \<open>
  Two metrics to run the search on: the sum of the squared component differences and the
  sum of their absolute values. Each is symmetric, non-negative and zero only between equal
  colours, as the contract of \<^verbatim>\<open>colordifference\<close> asks. The palette \<open>palette2 x\<close> has a fully
  opaque entry 0 at squared distance \<open>1/4 + x\<^sup>2\<close> from the opaque query and a
  half-transparent entry 1 at \<open>1/4\<close>. The palette \<open>palette_near\<close> has a fully opaque entry
  0 at absolute distance 1 from the query and a half-transparent entry 1 at
  \<open>16760833/2\<^sup>2\<^sup>4\<close>, closer by \<open>16383/2\<^sup>2\<^sup>4\<close>, which is less than \<open>1/1024 = 16384/2\<^sup>2\<^sup>4\<close>.
  The components of the sample colours and their distances to the query are binary32
  values, and each sum and product that yields them is exact.
\<close>

definition sq_difference :: "f_pixel \<Rightarrow> f_pixel \<Rightarrow> real" where
  "sq_difference p q =
     (a_f p - a_f q)\<^sup>2 + (r_f p - r_f q)\<^sup>2 + (g_f p - g_f q)\<^sup>2 + (b_f p - b_f q)\<^sup>2"


definition fpx :: "real \<Rightarrow> real \<Rightarrow> real \<Rightarrow> real \<Rightarrow> colormap_item" where
  "fpx al rd gr bl = \<lparr>acolor = \<lparr>a_f = al, r_f = rd, g_f = gr, b_f = bl\<rparr>\<rparr>"

definition query1 :: f_pixel where
  "query1 = \<lparr>a_f = 1, r_f = 0, g_f = 0, b_f = 0\<rparr>"

definition palette2 :: "real \<Rightarrow> colormap" where
  "palette2 x = \<lparr>palette = [fpx 1 (1/2) x 0, fpx (1/2) 0 0 0], colors = 2\<rparr>"


section \<open>Histogram construction: pam_computeacolorhist\<close>

subsection \<open>Pixels, packed colours and the posterization mask\<close>

text \<open>
  \<^verbatim>\<open>rgb_pixel\<close> (pam.h): four bytes. \<^verbatim>\<open>union rgb_as_long\<close> overlays the pixel with an
  \<^verbatim>\<open>unsigned int l\<close>; the two functions below are the two views of the union, with the
  first byte of the struct as the low byte of \<open>l\<close>. The posterization mask is the same in each
  byte, so no statement below depends on the byte order.
\<close>

record rgb_pixel =
  r_rgb :: "8 word"
  g_rgb :: "8 word"
  b_rgb :: "8 word"
  a_rgb :: "8 word"

definition rgb_as_long_l :: "rgb_pixel \<Rightarrow> 32 word" where
  "rgb_as_long_l p =
     ucast (r_rgb p) OR push_bit 8 (ucast (g_rgb p)) OR
     push_bit 16 (ucast (b_rgb p)) OR push_bit 24 (ucast (a_rgb p))"

definition rgb_as_long_rgb :: "32 word \<Rightarrow> rgb_pixel" where
  "rgb_as_long_rgb l =
     \<lparr>r_rgb = ucast l, g_rgb = ucast (drop_bit 8 l),
      b_rgb = ucast (drop_bit 16 l), a_rgb = ucast (drop_bit 24 l)\<rparr>"

definition HASH_SIZE :: nat where
  "HASH_SIZE = 30029"

text \<open>
  \<^verbatim>\<open>255>>ignorebits<<ignorebits\<close> is computed on \<^verbatim>\<open>int\<close>; a shift count that is negative or
  at least the width of \<^verbatim>\<open>int\<close> is undefined in C. The result is at most 255 and is then
  converted to \<^verbatim>\<open>unsigned int\<close>.
\<close>

definition channel_mask :: "int \<Rightarrow> fault + 32 word" where
  "channel_mask ignorebits =
     (if 0 \<le> ignorebits \<and> ignorebits < 32
      then Inr (word_of_int (push_bit (nat ignorebits) (drop_bit (nat ignorebits) (255 :: int))))
      else Inl Undefined_shift)"

definition posterize_mask :: "int \<Rightarrow> fault + 32 word" where
  "posterize_mask ignorebits =
     (case channel_mask ignorebits of
        Inl e \<Rightarrow> Inl e
      | Inr cm \<Rightarrow> Inr (push_bit 24 cm OR push_bit 16 cm OR push_bit 8 cm OR cm))"

subsection \<open>The hash table and its arena\<close>

text \<open>
  Modelled from the spec: the bump arena of mempool.h, whose code is not part of pam.c.
  An arena is the sequence of blocks handed out and still valid: allocation adds a block
  and reclaims nothing, release invalidates every block in one operation.
\<close>

datatype arena_block = Table_block | Buckets_block | Item_block

type_synonym mempool = "arena_block list"

definition mempool_new :: "mempool \<Rightarrow> arena_block \<Rightarrow> mempool" where
  "mempool_new m blk = m @ [blk]"

definition mempool_free :: "mempool \<Rightarrow> mempool" where
  "mempool_free m = []"

text \<open>
  \<^verbatim>\<open>struct acolorhist_list_item\<close>: a chain is the list of the nodes linked by \<^verbatim>\<open>next\<close>,
  head first. The field \<^verbatim>\<open>perceptual_weight\<close> of the node carries the suffix \<open>_achl\<close>, that
  of the histogram entry keeps the C name. \<^verbatim>\<open>buckets\<close> is the array of \<open>HASH_SIZE\<close> chain
  heads, read only at indices below \<open>HASH_SIZE\<close>; the arena hands it out zeroed, every
  chain empty.
\<close>

record acolorhist_list_item =
  color :: "32 word"
  perceptual_weight_achl :: real

record acolorhash_table =
  buckets :: "nat \<Rightarrow> acolorhist_list_item list"
  mempool :: mempool

definition pam_allocacolorhash :: acolorhash_table where
  "pam_allocacolorhash =
     \<lparr>buckets = (\<lambda>i. []), mempool = mempool_new (mempool_new [] Table_block) Buckets_block\<rparr>"

text \<open>\<^verbatim>\<open>pam_freeacolorhash\<close>: the arena after the call.\<close>

definition pam_freeacolorhash :: "acolorhash_table \<Rightarrow> mempool" where
  "pam_freeacolorhash acht = mempool_free (mempool acht)"

text \<open>
  A function that may return \<^verbatim>\<open>NULL\<close> after releasing the arena: \<open>Null m\<close> is that return,
  with the arena left as \<open>m\<close>.
\<close>

datatype 'a or_null = Value 'a | Null mempool

subsection \<open>pam_computeacolorhash\<close>

text \<open>
  \<^verbatim>\<open>apixels[row][col]\<close> and \<^verbatim>\<open>*importance_map++\<close>: reads, undefined outside the arrays.
  The importance pointer is modelled by the rest of the array it points into. In
  \<^verbatim>\<open>boost = 0.5 + *importance_map++\<close> (line 104) the constant is a \<^verbatim>\<open>double\<close>: the sum is
  rounded to binary64 and its conversion to the \<^verbatim>\<open>float\<close> variable rounds it to binary32.
\<close>

definition pixel_at :: "rgb_pixel list list \<Rightarrow> nat \<Rightarrow> nat \<Rightarrow> fault + rgb_pixel" where
  "pixel_at apixels row col =
     (if row < length apixels \<and> col < length (apixels ! row) then Inr (apixels ! row ! col)
      else Inl Undefined_read)"

definition next_boost :: "real \<Rightarrow> real list option \<Rightarrow> fault + real \<times> real list option" where
  "next_boost boost importance_map =
     (case importance_map of
        None \<Rightarrow> Inr (boost, None)
      | Some [] \<Rightarrow> Inl Undefined_read
      | Some (v # rest) \<Rightarrow> Inr (fl32 (fl64 (1 / 2 + v)), Some rest))"

text \<open>The search of a chain for the colour \<open>l\<close> (lines 111-117): the chain with the boost
  added to the first node of that colour, \<open>None\<close> when the search ends at \<^verbatim>\<open>NULL\<close>. The
  addition \<^verbatim>\<open>perceptual_weight += boost\<close> is a \<^verbatim>\<open>float\<close> sum, rounded to binary32.\<close>

primrec bump_chain ::
  "32 word \<Rightarrow> real \<Rightarrow> acolorhist_list_item list \<Rightarrow> acolorhist_list_item list option" where
  "bump_chain l boost [] = None"
| "bump_chain l boost (achl # rest) =
     (if color achl = l
      then Some (achl\<lparr>perceptual_weight_achl := fl32 (perceptual_weight_achl achl + boost)\<rparr>
                 # rest)
      else map_option ((#) achl) (bump_chain l boost rest))"

text \<open>Lines 109-129 for one masked pixel value \<open>l\<close>: the table and the colour counter
  after it, or the \<^verbatim>\<open>NULL\<close> return.\<close>

definition hash_pixel ::
  "int \<Rightarrow> 32 word \<Rightarrow> real \<Rightarrow> acolorhash_table \<times> int \<Rightarrow> (acolorhash_table \<times> int) or_null" where
  "hash_pixel maxacolors l boost st =
     (let acht = fst st; colors = snd st; hash = unat l mod HASH_SIZE
      in case bump_chain l boost (buckets acht hash) of
           Some chain \<Rightarrow> Value (acht\<lparr>buckets := (buckets acht)(hash := chain)\<rparr>, colors)
         | None \<Rightarrow>
             if colors + 1 > maxacolors then Null (pam_freeacolorhash acht)
             else Value
               (acht\<lparr>buckets := (buckets acht)
                        (hash := \<lparr>color = l, perceptual_weight_achl = boost\<rparr> # buckets acht hash),
                      mempool := mempool_new (mempool acht) Item_block\<rparr>,
                colors + 1))"

text \<open>The inner loop \<^verbatim>\<open>for (col = 0; col < cols; ++col)\<close>, entered at \<open>col\<close>, on the boost,
  the importance pointer, the table and the counter.\<close>

function col_loop ::
  "rgb_pixel list list \<Rightarrow> int \<Rightarrow> int \<Rightarrow> 32 word \<Rightarrow> nat \<Rightarrow> nat
     \<Rightarrow> real \<times> real list option \<times> acolorhash_table \<times> int
     \<Rightarrow> fault + (real \<times> real list option \<times> acolorhash_table \<times> int) or_null" where
  "col_loop apixels cols maxacolors pmask row col s =
     (if int col < cols then
        (case next_boost (fst s) (fst (snd s)) of
           Inl e \<Rightarrow> Inl e
         | Inr (boost, importance_map) \<Rightarrow>
             (case pixel_at apixels row col of
                Inl e \<Rightarrow> Inl e
              | Inr p \<Rightarrow>
                  (case hash_pixel maxacolors (rgb_as_long_l p AND pmask) boost (snd (snd s)) of
                     Null m \<Rightarrow> Inr (Null m)
                   | Value st \<Rightarrow>
                       col_loop apixels cols maxacolors pmask row (col + 1)
                         (boost, importance_map, st))))
      else Inr (Value s))"
  by pat_completeness auto
termination
  by (relation "measure (\<lambda>(apixels, cols, maxacolors, pmask, row, col, s). nat cols - col)") auto

text \<open>The outer loop \<^verbatim>\<open>for (row = 0; row < rows; ++row)\<close>, entered at \<open>row\<close>; the boost is
  declared anew as 1.0 in every row.\<close>

function row_loop ::
  "rgb_pixel list list \<Rightarrow> int \<Rightarrow> int \<Rightarrow> int \<Rightarrow> 32 word \<Rightarrow> nat
     \<Rightarrow> real list option \<times> acolorhash_table \<times> int
     \<Rightarrow> fault + (real list option \<times> acolorhash_table \<times> int) or_null" where
  "row_loop apixels cols rows maxacolors pmask row s =
     (if int row < rows then
        (case col_loop apixels cols maxacolors pmask row 0 (1, s) of
           Inl e \<Rightarrow> Inl e
         | Inr (Null m) \<Rightarrow> Inr (Null m)
         | Inr (Value s') \<Rightarrow> row_loop apixels cols rows maxacolors pmask (row + 1) (snd s'))
      else Inr (Value s))"
  by pat_completeness auto
termination
  by (relation "measure (\<lambda>(apixels, cols, rows, maxacolors, pmask, row, s). nat rows - row)") auto

text \<open>\<^verbatim>\<open>pam_computeacolorhash\<close>: \<open>Value (acht, colors)\<close> is the returned table with
  \<^verbatim>\<open>*acolorsP = colors\<close>.\<close>

definition pam_computeacolorhash ::
  "rgb_pixel list list \<Rightarrow> int \<Rightarrow> int \<Rightarrow> real \<Rightarrow> int \<Rightarrow> int \<Rightarrow> real list option
     \<Rightarrow> fault + (acolorhash_table \<times> int) or_null" where
  "pam_computeacolorhash apixels cols rows gamma maxacolors ignorebits importance_map =
     (case posterize_mask ignorebits of
        Inl e \<Rightarrow> Inl e
      | Inr pmask \<Rightarrow>
          (case row_loop apixels cols rows maxacolors pmask 0
                  (importance_map, pam_allocacolorhash, 0) of
             Inl e \<Rightarrow> Inl e
           | Inr (Null m) \<Rightarrow> Inr (Null m)
           | Inr (Value s) \<Rightarrow> Inr (Value (snd s))))"

subsection \<open>pam_acolorhashtoacolorhist and pam_computeacolorhist\<close>

text \<open>
  \<^verbatim>\<open>hist_item\<close> and \<^verbatim>\<open>hist\<close> (pam.h). The field \<^verbatim>\<open>acolor\<close> of the entry carries the suffix
  \<open>_hist\<close> and \<^verbatim>\<open>size\<close> too. The array \<^verbatim>\<open>achv\<close> is allocated with \<open>hist_size\<close> slots and
  written at \<open>j = 0, 1, ...\<close>; the model keeps the slots written so far, \<open>j\<close> being their
  number, and a write at \<open>j \<ge> hist_size\<close> is outside the array.
\<close>

record hist_item =
  acolor_hist :: f_pixel
  adjusted_weight :: real
  perceptual_weight :: real


text \<open>The inner loop over one chain (lines 159-164); \<open>to_f\<close> is the conversion of pam.h, a
  parameter of the model.\<close>

primrec chain_to_hist ::
  "(real \<Rightarrow> rgb_pixel \<Rightarrow> f_pixel) \<Rightarrow> real \<Rightarrow> int \<Rightarrow> acolorhist_list_item list
     \<Rightarrow> hist_item list \<Rightarrow> fault + hist_item list" where
  "chain_to_hist to_f gamma hist_size [] written = Inr written"
| "chain_to_hist to_f gamma hist_size (achl # rest) written =
     (if int (length written) < hist_size
      then chain_to_hist to_f gamma hist_size rest
             (written @
              [\<lparr>acolor_hist = to_f gamma (rgb_as_long_rgb (color achl)),
                adjusted_weight = perceptual_weight_achl achl,
                perceptual_weight = perceptual_weight_achl achl\<rparr>])
      else Inl Undefined_write)"

text \<open>The two loops of lines 156-164, entered at bucket \<open>i\<close> with the slots written so
  far.\<close>

function hist_loop ::
  "(real \<Rightarrow> rgb_pixel \<Rightarrow> f_pixel) \<Rightarrow> real \<Rightarrow> int \<Rightarrow> acolorhash_table \<Rightarrow> nat
     \<Rightarrow> hist_item list \<Rightarrow> fault + hist_item list" where
  "hist_loop to_f gamma hist_size acht i written =
     (if i < HASH_SIZE then
        (case chain_to_hist to_f gamma hist_size (buckets acht i) written of
           Inl e \<Rightarrow> Inl e
         | Inr written' \<Rightarrow> hist_loop to_f gamma hist_size acht (i + 1) written')
      else Inr written)"
  by pat_completeness auto
termination
  by (relation "measure (\<lambda>(to_f, gamma, hist_size, acht, i, written). HASH_SIZE - i)") auto






subsection \<open>The scan as a sequence of pixels\<close>

text \<open>
  The positions \<open>(row, col)\<close> in the order the two loops visit them, and what it means for
  the buffers to hold them: every position is inside \<^verbatim>\<open>apixels\<close>, and the importance map,
  when there is one, has a value for each. \<open>image_ok\<close> says so of the whole image.
\<close>

definition scan_order :: "int \<Rightarrow> int \<Rightarrow> (nat \<times> nat) list" where
  "scan_order cols rows = List.product [0..<nat rows] [0..<nat cols]"

definition readable :: "rgb_pixel list list \<Rightarrow> real list option \<Rightarrow> (nat \<times> nat) list \<Rightarrow> bool" where
  "readable apixels importance_map ps =
     (list_all (\<lambda>pos. fst pos < length apixels \<and> snd pos < length (apixels ! fst pos)) ps \<and>
      (case importance_map of None \<Rightarrow> True | Some m \<Rightarrow> length ps \<le> length m))"

definition image_ok :: "rgb_pixel list list \<Rightarrow> int \<Rightarrow> int \<Rightarrow> real list option \<Rightarrow> bool" where
  "image_ok apixels cols rows importance_map =
     readable apixels importance_map (scan_order cols rows)"

text \<open>
  The boost of each scanned pixel (1.0 without an importance map, the \<^verbatim>\<open>float\<close> of
  \<open>0.5 + importance\<close> with one), the posterized colour of each scanned pixel, and both
  together in scan order.
\<close>

definition boosts :: "real list option \<Rightarrow> nat \<Rightarrow> real list" where
  "boosts importance_map n =
     (case importance_map of
        None \<Rightarrow> replicate n 1
      | Some m \<Rightarrow> map (\<lambda>v. fl32 (fl64 (1 / 2 + v))) (take n m))"

definition posterized :: "32 word \<Rightarrow> rgb_pixel list list \<Rightarrow> (nat \<times> nat) list \<Rightarrow> 32 word list" where
  "posterized pmask apixels ps =
     map (\<lambda>pos. rgb_as_long_l (apixels ! fst pos ! snd pos) AND pmask) ps"

definition pixel_stream ::
  "32 word \<Rightarrow> rgb_pixel list list \<Rightarrow> real list option \<Rightarrow> (nat \<times> nat) list
     \<Rightarrow> (32 word \<times> real) list" where
  "pixel_stream pmask apixels importance_map ps =
     zip (posterized pmask apixels ps) (boosts importance_map (length ps))"

text \<open>
  \<open>faccum bs\<close> is the \<^verbatim>\<open>float\<close> accumulation of the boosts \<open>bs\<close>: the first boost is stored
  as it is, each later one is added by a binary32 sum. \<open>accumulated xs c\<close> is the
  accumulation of the boosts of the pixels of colour \<open>c\<close>, in scan order. \<open>over_cap\<close> says
  that a non-empty sequence of pixels holds more than \<open>maxacolors\<close> distinct colours.
\<close>

definition faccum :: "real list \<Rightarrow> real" where
  "faccum bs = (case bs of [] \<Rightarrow> 0 | b # rest \<Rightarrow> foldl (\<lambda>w b'. fl32 (w + b')) b rest)"

definition accumulated :: "(32 word \<times> real) list \<Rightarrow> 32 word \<Rightarrow> real" where
  "accumulated xs c = faccum (map snd (filter (\<lambda>x. fst x = c) xs))"

definition over_cap :: "int \<Rightarrow> (32 word \<times> real) list \<Rightarrow> bool" where
  "over_cap maxacolors xs = (xs \<noteq> [] \<and> maxacolors < int (card (set (map fst xs))))"

text \<open>
  The two loops as one recursion over the list of positions, with the reads of the loop
  body, and the same recursion over the pixels already read.
\<close>

primrec scan_positions ::
  "rgb_pixel list list \<Rightarrow> int \<Rightarrow> 32 word \<Rightarrow> (nat \<times> nat) list
     \<Rightarrow> real list option \<times> acolorhash_table \<times> int
     \<Rightarrow> fault + (real list option \<times> acolorhash_table \<times> int) or_null" where
  "scan_positions apixels maxacolors pmask [] s = Inr (Value s)"
| "scan_positions apixels maxacolors pmask (pos # rest) s =
     (case next_boost 1 (fst s) of
        Inl e \<Rightarrow> Inl e
      | Inr (boost, importance_map) \<Rightarrow>
          (case pixel_at apixels (fst pos) (snd pos) of
             Inl e \<Rightarrow> Inl e
           | Inr p \<Rightarrow>
               (case hash_pixel maxacolors (rgb_as_long_l p AND pmask) boost (snd s) of
                  Null m \<Rightarrow> Inr (Null m)
                | Value st \<Rightarrow> scan_positions apixels maxacolors pmask rest (importance_map, st))))"

primrec hash_pixels ::
  "int \<Rightarrow> (32 word \<times> real) list \<Rightarrow> acolorhash_table \<times> int \<Rightarrow> (acolorhash_table \<times> int) or_null" where
  "hash_pixels maxacolors [] st = Value st"
| "hash_pixels maxacolors (x # xs) st =
     (case hash_pixel maxacolors (fst x) (snd x) st of
        Null m \<Rightarrow> Null m
      | Value st' \<Rightarrow> hash_pixels maxacolors xs st')"

definition drop_boost ::
  "fault + (real \<times> 's) or_null \<Rightarrow> fault + 's or_null" where
  "drop_boost res =
     (case res of Inl e \<Rightarrow> Inl e | Inr (Null m) \<Rightarrow> Inr (Null m) | Inr (Value s) \<Rightarrow> Inr (Value (snd s)))"

text \<open>
  The invariant of the table: every node lies in the bucket of its hash, the colours of a
  chain are distinct, and the weight found for a colour is the accumulation of the boosts
  of the pixels of that colour hashed so far. \<open>table_nodes\<close> lists the nodes of a table in
  the order in which lines 158-159 visit them.
\<close>

definition chain_weights :: "acolorhist_list_item list \<Rightarrow> 32 word \<Rightarrow> real option" where
  "chain_weights chain = map_of (map (\<lambda>achl. (color achl, perceptual_weight_achl achl)) chain)"

definition represents :: "(nat \<Rightarrow> acolorhist_list_item list) \<Rightarrow> (32 word \<times> real) list \<Rightarrow> bool" where
  "represents bk xs =
     ((\<forall>h. (\<forall>achl \<in> set (bk h). unat (color achl) mod HASH_SIZE = h) \<and>
           distinct (map color (bk h))) \<and>
      (\<forall>c. chain_weights (bk (unat c mod HASH_SIZE)) c =
           (if c \<in> fst ` set xs then Some (accumulated xs c) else None)))"

definition table_nodes :: "acolorhash_table \<Rightarrow> acolorhist_list_item list" where
  "table_nodes acht = concat (map (buckets acht) [0..<HASH_SIZE])"

text \<open>The nodes of the table that a call of the hash pass returns, none when it returns
  no table, and the colour count it stores in \<^verbatim>\<open>*acolorsP\<close> when it returns one.\<close>

definition returned_nodes ::
  "fault + (acolorhash_table \<times> int) or_null \<Rightarrow> acolorhist_list_item list" where
  "returned_nodes res = (case res of Inr (Value st) \<Rightarrow> table_nodes (fst st) | _ \<Rightarrow> [])"

definition returned_colors :: "fault + (acolorhash_table \<times> int) or_null \<Rightarrow> int option" where
  "returned_colors res = (case res of Inr (Value st) \<Rightarrow> Some (snd st) | _ \<Rightarrow> None)"

text \<open>The histogram entry written for a node of colour \<open>c\<close> and weight \<open>w\<close>.\<close>

definition entry_of :: "(real \<Rightarrow> rgb_pixel \<Rightarrow> f_pixel) \<Rightarrow> real \<Rightarrow> 32 word \<Rightarrow> real \<Rightarrow> hist_item" where
  "entry_of to_f gamma c w =
     \<lparr>acolor_hist = to_f gamma (rgb_as_long_rgb c), adjusted_weight = w, perceptual_weight = w\<rparr>"

subsection \<open>Sample inputs of the histogram\<close>

text \<open>
  A conversion to run the loops on, in place of \<^verbatim>\<open>to_f\<close> of pam.h: the channels divided by
  256, the colour channels multiplied by \<open>gamma\<close>; with \<open>gamma = 1\<close> its results are binary32
  values. \<open>image4\<close> is a 2 by 2 image in which
  two pixels share a colour and a third differs from them in the lowest bit of one channel;
  \<open>image2\<close> has a single row of two pixels that differ in that bit. \<open>table4\<close> is the hash
  table of \<open>image4\<close> without posterization and \<open>written4\<close> the entries the loops of lines
  156-164 write for it; \<open>table4_coarse\<close> and \<open>written4_coarse\<close> are the table and the
  entries with one bit ignored and the importance map \<open>[0, 1/2, 1, 1/4]\<close>. \<open>lp64\<close> is the
  layout of the header on a platform with pointers of 8 bytes and \<^verbatim>\<open>int\<close> of 4 bytes.
\<close>

definition rgb :: "8 word \<Rightarrow> 8 word \<Rightarrow> 8 word \<Rightarrow> 8 word \<Rightarrow> rgb_pixel" where
  "rgb rd gr bl al = \<lparr>r_rgb = rd, g_rgb = gr, b_rgb = bl, a_rgb = al\<rparr>"

definition to_f_sample :: "real \<Rightarrow> rgb_pixel \<Rightarrow> f_pixel" where
  "to_f_sample gamma p =
     \<lparr>a_f = real (unat (a_rgb p)) / 256, r_f = gamma * real (unat (r_rgb p)) / 256,
      g_f = gamma * real (unat (g_rgb p)) / 256, b_f = gamma * real (unat (b_rgb p)) / 256\<rparr>"

definition hist_entry :: "real \<Rightarrow> real \<Rightarrow> real \<Rightarrow> real \<Rightarrow> real \<Rightarrow> hist_item" where
  "hist_entry al rd gr bl w =
     \<lparr>acolor_hist = \<lparr>a_f = al, r_f = rd, g_f = gr, b_f = bl\<rparr>,
      adjusted_weight = w, perceptual_weight = w\<rparr>"

definition image4 :: "rgb_pixel list list" where
  "image4 = [[rgb 1 2 3 255, rgb 1 2 3 255], [rgb 0 2 3 255, rgb 9 9 9 9]]"

definition image2 :: "rgb_pixel list list" where
  "image2 = [[rgb 1 2 3 255, rgb 0 2 3 255]]"

definition table4 :: acolorhash_table where
  "table4 =
     \<lparr>buckets = (\<lambda>i. [])
        (5426 := [\<lparr>color = 4278387201, perceptual_weight_achl = 2\<rparr>],
         5425 := [\<lparr>color = 4278387200, perceptual_weight_achl = 1\<rparr>],
         689 := [\<lparr>color = 151587081, perceptual_weight_achl = 1\<rparr>]),
      mempool = [Table_block, Buckets_block, Item_block, Item_block, Item_block]\<rparr>"

definition written4 :: "hist_item list" where
  "written4 = [hist_entry (9/256) (9/256) (9/256) (9/256) 1,
               hist_entry (255/256) 0 (2/256) (3/256) 1,
               hist_entry (255/256) (1/256) (2/256) (3/256) 2]"

definition table4_coarse :: acolorhash_table where
  "table4_coarse =
     \<lparr>buckets = (\<lambda>i. [])
        (8942 := [\<lparr>color = 4261544448, perceptual_weight_achl = 3\<rparr>],
         3949 := [\<lparr>color = 134744072, perceptual_weight_achl = 3/4\<rparr>]),
      mempool = [Table_block, Buckets_block, Item_block, Item_block]\<rparr>"

definition written4_coarse :: "hist_item list" where
  "written4_coarse = [hist_entry (8/256) (8/256) (8/256) (8/256) (3/4),
                      hist_entry (254/256) 0 (2/256) (2/256) 3]"


section \<open>Properties of the rounding\<close>

text \<open>
  Rounding leaves a value of the format as it is, and it is monotone around such a value:
  \<open>round_to_exact\<close>, \<open>round_to_le_representable\<close> and \<open>round_to_ge_representable\<close>.
\<close>

lemma two_powr_int: "(2 :: real) powr real_of_int e = 2 powi e"
  by (rule powr_real_of_int') simp_all

lemma two_powr_int_Suc: "(2 :: real) powr (real_of_int e + 1) = 2 powi (e + 1)"
  using two_powr_int [of "e + 1"] by simp

lemma floor_log2_eq:
  "0 < x \<Longrightarrow> 2 powi e \<le> x \<Longrightarrow> x < 2 powi (e + 1) \<Longrightarrow> \<lfloor>log 2 x\<rfloor> = e"
  using floor_log_eq_powr_iff [of x 2 e] by (simp add: two_powr_int two_powr_int_Suc)

lemma floor_log2_bounds:
  assumes "0 < (x :: real)"
  shows "2 powi \<lfloor>log 2 x\<rfloor> \<le> x" "x < 2 powi (\<lfloor>log 2 x\<rfloor> + 1)"
  using floor_log_eq_powr_iff [of x 2 "\<lfloor>log 2 x\<rfloor>"] assms
  by (simp_all add: two_powr_int two_powr_int_Suc)

lemma round_even_of_int [simp]: "round_even (of_int z) = z"
  by (simp add: round_even_def)


lemma round_to_eval:
  assumes "x \<noteq> 0" "2 powi e \<le> \<bar>x\<bar>" "\<bar>x\<bar> < 2 powi (e + 1)"
  shows "round_to p x = 2 powi (e - int p + 1) * of_int (round_even (x / 2 powi (e - int p + 1)))"
proof -
  from assms have "\<lfloor>log 2 \<bar>x\<bar>\<rfloor> = e" by (intro floor_log2_eq) simp_all
  with assms(1) show ?thesis by (simp add: round_to_def Let_def)
qed

lemma round_to_exact:
  assumes x: "x = of_int m * 2 powi k" and m: "\<bar>m\<bar> < 2 ^ p"
  shows "round_to p x = x"
proof (cases "m = 0")
  case True
  with x show ?thesis by (simp add: round_to_def)
next
  case False
  then have m1: "1 \<le> \<bar>m\<bar>" by simp
  have pos: "(0 :: real) < 2 powi k" by simp
  from False x have x0: "x \<noteq> 0" by simp
  have ax: "\<bar>x\<bar> = of_int \<bar>m\<bar> * 2 powi k" by (simp add: x abs_mult)
  define e where "e = \<lfloor>log 2 \<bar>x\<bar>\<rfloor>"
  from x0 have xp: "0 < \<bar>x\<bar>" by simp
  note b = floor_log2_bounds [OF xp, folded e_def]
  have lo: "k \<le> e"
  proof (rule ccontr)
    assume "\<not> k \<le> e"
    then have "e + 1 \<le> k" by simp
    then have "(2 :: real) powi (e + 1) \<le> 2 powi k" by (intro power_int_increasing) simp_all
    also have "\<dots> = 1 * 2 powi k" by simp
    also have "\<dots> \<le> of_int \<bar>m\<bar> * 2 powi k"
      using m1 by (intro mult_right_mono) simp_all
    finally show False using b(2) ax by simp
  qed
  have hi: "e < k + int p"
  proof (rule ccontr)
    assume "\<not> e < k + int p"
    then have le: "k + int p \<le> e" by simp
    have "of_int \<bar>m\<bar> < (2 :: real) ^ p"
      using m by (metis of_int_less_iff of_int_numeral of_int_power)
    then have "\<bar>x\<bar> < 2 ^ p * 2 powi k" unfolding ax using pos by (intro mult_strict_right_mono)
    also have "\<dots> = 2 powi (k + int p)" by (simp add: power_int_add)
    also have "\<dots> \<le> 2 powi e" using le by (intro power_int_increasing) simp_all
    finally show False using b(1) by simp
  qed
  define j where "j = nat (k - (e - int p + 1))"
  from hi have j: "k = (e - int p + 1) + int j" by (simp add: j_def)
  have "x / 2 powi (e - int p + 1) = of_int m * 2 ^ j"
    unfolding x by (subst j) (simp add: power_int_add)
  also have "\<dots> = of_int (m * 2 ^ j)" by simp
  finally have q: "x / 2 powi (e - int p + 1) = of_int (m * 2 ^ j)" .
  have "round_to p x = 2 powi (e - int p + 1) * of_int (round_even (x / 2 powi (e - int p + 1)))"
    using x0 by (simp add: round_to_def e_def Let_def)
  also have "\<dots> = 2 powi (e - int p + 1) * (x / 2 powi (e - int p + 1))"
    by (simp only: q round_even_of_int)
  also have "\<dots> = x" by simp
  finally show ?thesis .
qed

lemma round_to_of_nat:
  assumes "n \<le> 2 ^ p" "0 < p"
  shows "round_to p (of_nat n) = of_nat n"
proof (cases "n = 2 ^ p")
  case True
  have "round_to p (of_int 1 * 2 powi int p) = of_int 1 * 2 powi int p"
    by (rule round_to_exact [OF refl]) (use assms(2) in simp)
  with True show ?thesis by simp
next
  case False
  with assms have "n < 2 ^ p" by simp
  then have "\<bar>int n\<bar> < 2 ^ p"
    by (metis abs_of_nat of_nat_less_iff of_nat_numeral of_nat_power)
  from round_to_exact [of "of_nat n" "int n" 0 p, OF _ this] show ?thesis by simp
qed






subsection \<open>Values of the two formats\<close>

lemma fl32_exact: "x = of_int m * 2 powi k \<Longrightarrow> \<bar>m\<bar> < 16777216 \<Longrightarrow> fl32 x = x"
  unfolding fl32_def by (rule round_to_exact [of x m k]) simp_all

lemma fl64_exact: "x = of_int m * 2 powi k \<Longrightarrow> \<bar>m\<bar> < 9007199254740992 \<Longrightarrow> fl64 x = x"
  unfolding fl64_def by (rule round_to_exact [of x m k]) simp_all

lemma fl32_values:
  shows "fl32 (1 / 2) = 1 / 2"
    and "fl32 1 = 1"
    and "fl32 (3 / 2) = 3 / 2"
    and "fl32 (3 / 4) = 3 / 4"
    and "fl32 2 = 2"
    and "fl32 3 = 3"
    and "fl32 (15 / 4) = 15 / 4"
    and "fl32 (257 / 1024) = 257 / 1024"
    and "fl32 (65 / 256) = 65 / 256"
    and "fl32 (1025 / 4096) = 1025 / 4096"
    and "fl32 (8388609 / 16777216) = 8388609 / 16777216"
proof -
  show "fl32 (1 / 2) = 1 / 2" by (rule fl32_exact [of _ 1 "- 1"]) simp_all
  show "fl32 1 = 1" by (rule fl32_exact [of _ 1 0]) simp_all
  show "fl32 (3 / 2) = 3 / 2" by (rule fl32_exact [of _ 3 "- 1"]) simp_all
  show "fl32 (3 / 4) = 3 / 4" by (rule fl32_exact [of _ 3 "- 2"]) simp_all
  show "fl32 2 = 2" by (rule fl32_exact [of _ 1 1]) simp_all
  show "fl32 3 = 3" by (rule fl32_exact [of _ 3 0]) simp_all
  show "fl32 (15 / 4) = 15 / 4" by (rule fl32_exact [of _ 15 "- 2"]) simp_all
  show "fl32 (257 / 1024) = 257 / 1024" by (rule fl32_exact [of _ 257 "- 10"]) simp_all
  show "fl32 (65 / 256) = 65 / 256" by (rule fl32_exact [of _ 65 "- 8"]) simp_all
  show "fl32 (1025 / 4096) = 1025 / 4096" by (rule fl32_exact [of _ 1025 "- 12"]) simp_all
  show "fl32 (8388609 / 16777216) = 8388609 / 16777216" by (rule fl32_exact [of _ 8388609 "- 24"]) simp_all
qed

lemma fl64_values:
  shows "fl64 (1 / 2) = 1 / 2"
    and "fl64 1 = 1"
    and "fl64 (3 / 2) = 3 / 2"
    and "fl64 (3 / 4) = 3 / 4"
    and "fl64 (8388609 / 16777216) = 8388609 / 16777216"
    and "fl64 (16777217 / 33554432) = 16777217 / 33554432"
proof -
  show "fl64 (1 / 2) = 1 / 2" by (rule fl64_exact [of _ 1 "- 1"]) simp_all
  show "fl64 1 = 1" by (rule fl64_exact [of _ 1 0]) simp_all
  show "fl64 (3 / 2) = 3 / 2" by (rule fl64_exact [of _ 3 "- 1"]) simp_all
  show "fl64 (3 / 4) = 3 / 4" by (rule fl64_exact [of _ 3 "- 2"]) simp_all
  show "fl64 (8388609 / 16777216) = 8388609 / 16777216" by (rule fl64_exact [of _ 8388609 "- 24"]) simp_all
  show "fl64 (16777217 / 33554432) = 16777217 / 33554432" by (rule fl64_exact [of _ 16777217 "- 25"]) simp_all
qed

lemma fl32_ties:
  shows "fl32 (16777217 / 33554432) = 1 / 2"
    and "fl32 (16777217 / 16777216) = 1"
    and "fl32 (25165825 / 16777216) = 3 / 2"
    and "fl32 16777217 = 16777216"
proof -
  show "fl32 (16777217 / 33554432) = 1 / 2"
    unfolding fl32_def by (subst round_to_eval [where e = "- 1"]) (simp_all add: round_even_def)
  show "fl32 (16777217 / 16777216) = 1"
    unfolding fl32_def by (subst round_to_eval [where e = 0]) (simp_all add: round_even_def)
  show "fl32 (25165825 / 16777216) = 3 / 2"
    unfolding fl32_def by (subst round_to_eval [where e = 0]) (simp_all add: round_even_def)
  show "fl32 16777217 = 16777216"
    unfolding fl32_def by (subst round_to_eval [where e = 24]) (simp_all add: round_even_def)
qed

subsection \<open>The accumulation of boosts\<close>

text \<open>
  Up to \<open>2\<^sup>2\<^sup>4\<close> boosts of 1.0 accumulate to their number; from there on the binary32 sum
  \<open>2\<^sup>2\<^sup>4 + 1\<close> rounds back to \<open>2\<^sup>2\<^sup>4\<close> and the accumulation stays there.
\<close>

lemma faccum_snoc: "faccum (bs @ [b]) = (if bs = [] then b else fl32 (faccum bs + b))"
  by (cases bs) (simp_all add: faccum_def)

lemma accumulated_snoc:
  "accumulated (xs @ [(l, b)]) c =
     (if l = c then (if c \<in> fst ` set xs then fl32 (accumulated xs c + b) else b)
      else accumulated xs c)"
proof -
  have "map snd (filter (\<lambda>x. fst x = c) xs) = [] \<longleftrightarrow> c \<notin> fst ` set xs"
    by (auto simp: filter_empty_conv)
  then show ?thesis
    by (simp add: accumulated_def faccum_snoc)
qed

lemma fl32_of_nat: "n \<le> 16777216 \<Longrightarrow> fl32 (real n) = real n"
  unfolding fl32_def by (rule round_to_of_nat) simp_all

lemma faccum_ones: "n \<le> 16777216 \<Longrightarrow> faccum (replicate n 1) = real n"
proof (induction n)
  case 0
  show ?case by (simp add: faccum_def)
next
  case (Suc n)
  have r: "replicate (Suc n) (1 :: real) = replicate n 1 @ [1]"
    by (simp add: replicate_append_same)
  from Suc.prems have "fl32 (real (Suc n)) = real (Suc n)" by (rule fl32_of_nat)
  with Suc show ?case
    unfolding r faccum_snoc by (simp add: add.commute)
qed

lemma faccum_ones_saturated: "faccum (replicate (16777216 + k) 1) = 16777216"
proof (induction k)
  case 0
  show ?case using faccum_ones [of 16777216] by simp
next
  case (Suc k)
  have "replicate (Suc (16777216 + k)) (1 :: real) = replicate (16777216 + k) 1 @ [1]"
    by (simp only: replicate_append_same replicate.simps)
  then have r: "replicate (16777216 + Suc k) (1 :: real) = replicate (16777216 + k) 1 @ [1]"
    by (simp only: add_Suc_right)
  have ne: "replicate (16777216 + k) (1 :: real) \<noteq> []"
    by simp
  show ?case
    unfolding r faccum_snoc using ne Suc by (simp add: fl32_ties)
qed

section \<open>Properties of best_color_index\<close>

declare best_color_loop.simps [simp del]

lemma palette_at_in_range:
  "0 \<le> i \<Longrightarrow> nat i < length acolormap \<Longrightarrow> palette_at acolormap i = Inr (acolormap ! nat i)"
  by (simp add: palette_at_def)


lemma best_color_loop_done:
  "\<not> i < numcolors \<Longrightarrow> best_color_loop cd px acolormap numcolors iebug i st = Inr st"
  by (simp add: best_color_loop.simps)

lemma best_color_loop_step:
  "i < numcolors \<Longrightarrow> palette_at acolormap i = Inr item \<Longrightarrow>
   best_color_loop cd px acolormap numcolors iebug i st =
     best_color_loop cd px acolormap numcolors iebug (i + 1) (scan_step cd px iebug item i st)"
  by (subst best_color_loop.simps) simp

lemma best_color_loop_fault:
  "i < numcolors \<Longrightarrow> palette_at acolormap i = Inl e \<Longrightarrow>
   best_color_loop cd px acolormap numcolors iebug i st = Inl e"
  by (subst best_color_loop.simps) simp

lemma scan_step_cases:
  "scan_step cd px iebug item i st = st \<or>
   scan_step cd px iebug item i st = (i, cd px (acolor item))"
  by (cases st) (simp add: scan_step_def Let_def)

lemma scan_step_incumbent:
  assumes "incumbent cd px acolormap i st" "palette_at acolormap i = Inr item"
  shows "incumbent cd px acolormap (i + 1) (scan_step cd px iebug item i st)"
  using assms scan_step_cases [of cd px iebug item i st]
  by (auto simp: incumbent_def palette_at_def split: if_splits)

lemma best_color_loop_incumbent:
  "incumbent cd px acolormap i st \<Longrightarrow>
   best_color_loop cd px acolormap numcolors iebug i st = Inr st' \<Longrightarrow>
   incumbent cd px acolormap (max i numcolors) st'"
proof (induction cd px acolormap numcolors iebug i st rule: best_color_loop.induct)
  case (1 cd px acolormap numcolors iebug i st)
  show ?case
  proof (cases "i < numcolors")
    case False
    with "1.prems" show ?thesis
      by (simp add: best_color_loop_done incumbent_def)
  next
    case True
    show ?thesis
    proof (cases "palette_at acolormap i")
      case (Inl e)
      with True "1.prems" show ?thesis by (simp add: best_color_loop_fault)
    next
      case (Inr item)
      from "1.prems"(1) Inr
      have inc: "incumbent cd px acolormap (i + 1) (scan_step cd px iebug item i st)"
        by (rule scan_step_incumbent)
      from "1.prems"(2) True Inr
      have "best_color_loop cd px acolormap numcolors iebug (i + 1)
              (scan_step cd px iebug item i st) = Inr st'"
        by (simp add: best_color_loop_step)
      with "1.IH" [OF True Inr inc]
      have "incumbent cd px acolormap (max (i + 1) numcolors) st'" by simp
      with True show ?thesis by (simp add: incumbent_def max_def split: if_splits)
    qed
  qed
qed

lemma best_color_loop_returns:
  "nat numcolors \<le> length acolormap \<Longrightarrow> 0 \<le> i \<Longrightarrow>
   \<exists>st'. best_color_loop cd px acolormap numcolors iebug i st = Inr st'"
proof (induction cd px acolormap numcolors iebug i st rule: best_color_loop.induct)
  case (1 cd px acolormap numcolors iebug i st)
  show ?case
  proof (cases "i < numcolors")
    case False
    then show ?thesis by (simp add: best_color_loop_done)
  next
    case True
    with "1.prems" have rd: "palette_at acolormap i = Inr (acolormap ! nat i)"
      by (simp add: palette_at_def)
    from "1.IH" [OF True rd] "1.prems" show ?thesis
      by (simp add: best_color_loop_step [OF True rd])
  qed
qed

lemma best_color_index_returns:
  assumes "1 \<le> colors cmap" "nat (colors cmap) \<le> length (palette cmap)"
  shows "\<exists>ind item. best_color_index cd px cmap mo dist_out =
            Inr (ind, case dist_out of None \<Rightarrow> None | Some old \<Rightarrow> Some (cd px (acolor item))) \<and>
          0 \<le> ind \<and> ind < colors cmap \<and> palette_at (palette cmap) ind = Inr item"
proof -
  let ?pal = "palette cmap" and ?n = "colors cmap" and ?bug = "a_f px > mo"
  from assms have len: "0 < length ?pal" by arith
  then have rd0: "palette_at ?pal 0 = Inr (?pal ! 0)"
    by (simp add: palette_at_def)
  let ?st0 = "(0::int, cd px (acolor (?pal ! 0)))"
  from len have inc0: "incumbent cd px ?pal 1 ?st0"
    by (simp add: incumbent_def)
  from assms obtain st' where run: "best_color_loop cd px ?pal ?n ?bug 1 ?st0 = Inr st'"
    using best_color_loop_returns [of ?n ?pal 1 cd px ?bug ?st0] by auto
  from best_color_loop_incumbent [OF inc0 run] assms
  have inc: "incumbent cd px ?pal ?n st'" by (simp add: max_def)
  then have "palette_at ?pal (fst st') = Inr (?pal ! nat (fst st'))"
    by (simp add: incumbent_def palette_at_def)
  with inc rd0 run show ?thesis
    by (cases st') (auto simp: best_color_index_def Let_def incumbent_def split: option.splits)
qed

lemma best_color_index_result:
  assumes "best_color_index cd px cmap mo dist_out = Inr (ind, out)"
  shows "\<exists>item. palette_at (palette cmap) ind = Inr item \<and>
           out = (case dist_out of None \<Rightarrow> None | Some old \<Rightarrow> Some (cd px (acolor item)))"
proof -
  let ?pal = "palette cmap" and ?n = "colors cmap" and ?bug = "a_f px > mo"
  from assms obtain item0 where rd0: "palette_at ?pal 0 = Inr item0"
    by (auto simp: best_color_index_def Let_def split: sum.splits)
  then have i0: "item0 = ?pal ! 0" "0 < length ?pal"
    by (auto simp: palette_at_def split: if_splits)
  let ?st0 = "(0::int, cd px (acolor item0))"
  from assms rd0 obtain d' where run: "best_color_loop cd px ?pal ?n ?bug 1 ?st0 = Inr (ind, d')"
    and res: "out = (case dist_out of None \<Rightarrow> None | Some old \<Rightarrow> Some d')"
    by (auto simp: best_color_index_def Let_def split: sum.splits prod.splits)
  from i0 have "incumbent cd px ?pal 1 ?st0" by (simp add: incumbent_def)
  from best_color_loop_incumbent [OF this run]
  have inc: "incumbent cd px ?pal (max 1 ?n) (ind, d')" .
  then have "palette_at ?pal ind = Inr (?pal ! nat ind)"
    by (simp add: incumbent_def palette_at_def)
  with inc res show ?thesis by (auto simp: incumbent_def split: option.splits)
qed

lemma best_color_index_empty:
  "palette cmap = [] \<Longrightarrow> best_color_index cd px cmap mo dist_out = Inl Undefined_read"
  by (simp add: best_color_index_def Let_def palette_at_def)


subsection \<open>The replacement rule\<close>




subsection \<open>The returned index\<close>

text \<open>
  C6: for a palette of at least one entry (\<open>colors \<ge> 1\<close>, the array holding that many
  entries), any query and any \<open>min_opaque_val\<close>, \<open>best_color_index\<close> returns an index
  \<open>ind\<close> with \<open>0 \<le> ind < colors\<close>; for a single-entry palette the index is 0.
\<close>

theorem best_color_index_in_range:
  assumes "1 \<le> colors cmap" "nat (colors cmap) \<le> length (palette cmap)"
  shows "\<exists>ind out. best_color_index cd px cmap mo dist_out = Inr (ind, out) \<and>
           0 \<le> ind \<and> ind < colors cmap \<and> (colors cmap = 1 \<longrightarrow> ind = 0)"
  using best_color_index_returns [OF assms, of cd px mo dist_out] by auto

theorem best_color_index_in_range_witness:
  "1 \<le> colors (pam_colormap 1) \<and>
   nat (colors (pam_colormap 1)) \<le> length (palette (pam_colormap 1)) \<and>
   best_color_index sq_difference query1 (pam_colormap 1) 0 None = Inr (0, None) \<and>
   1 \<le> colors (palette2 (1/16)) \<and>
   nat (colors (palette2 (1/16))) \<le> length (palette (palette2 (1/16))) \<and>
   best_color_index sq_difference query1 (palette2 (1/16)) 0 None = Inr (1, None)"
proof -
  have h1: "1 \<le> colors (pam_colormap 1)"
    and h2: "nat (colors (pam_colormap 1)) \<le> length (palette (pam_colormap 1))"
    by (simp_all add: pam_colormap_def)
  have h3: "1 \<le> colors (palette2 (1/16))"
    and h4: "nat (colors (palette2 (1/16))) \<le> length (palette (palette2 (1/16)))"
    by (simp_all add: palette2_def)
  have one: "colors (pam_colormap 1) = 1" by (simp add: pam_colormap_def)
  from best_color_index_in_range [OF h1 h2, of sq_difference query1 0 None] one
  obtain out where r1: "best_color_index sq_difference query1 (pam_colormap 1) 0 None = Inr (0, out)"
    by auto
  have "best_color_index sq_difference query1 (pam_colormap 1) 0 None = Inr (0, None)"
    by (simp add: best_color_index_def pam_colormap_def palette_at_def query1_def
        best_color_loop.simps Let_def)
  moreover
  have "best_color_index sq_difference query1 (palette2 (1/16)) 0 None = Inr (1, None)"
    by (simp add: best_color_index_def palette2_def fpx_def query1_def palette_at_def
        best_color_loop.simps scan_step_def sq_difference_def power2_eq_square Let_def
        fl32_values)
  ultimately show ?thesis using h1 h2 h3 h4 r1 by simp
qed

subsection \<open>The empty palette\<close>

text \<open>
  C7, as the specification states it, fails: the code makes no check of the palette
  length. With a palette of zero entries it reads \<^verbatim>\<open>acolormap[0]\<close> before the loop, a
  read outside the array. The amended claim: \<open>best_color_index\<close> returns a result for
  every palette with \<open>colors \<ge> 1\<close> whose array holds \<open>colors\<close> entries; a palette with an
  empty array is not rejected, the call reads entry 0 outside the array.
\<close>

theorem best_color_index_total_on_nonempty:
  "(1 \<le> colors cmap \<and> nat (colors cmap) \<le> length (palette cmap) \<longrightarrow>
      (\<exists>res. best_color_index cd px cmap mo dist_out = Inr res)) \<and>
   (palette cmap = [] \<longrightarrow> best_color_index cd px cmap mo dist_out = Inl Undefined_read)"
proof (intro conjI impI)
  assume "1 \<le> colors cmap \<and> nat (colors cmap) \<le> length (palette cmap)"
  then have "1 \<le> colors cmap" "nat (colors cmap) \<le> length (palette cmap)" by simp_all
  from best_color_index_returns [OF this, of cd px mo dist_out]
  show "\<exists>res. best_color_index cd px cmap mo dist_out = Inr res" by blast
next
  assume "palette cmap = []"
  then show "best_color_index cd px cmap mo dist_out = Inl Undefined_read"
    by (rule best_color_index_empty)
qed

text \<open>The palette that \<^verbatim>\<open>pam_colormap(0)\<close> creates: the search reads outside it.\<close>

theorem best_color_index_empty_palette_reads:
  "best_color_index sq_difference query1 (pam_colormap 0) 0 None = Inl Undefined_read"
  by (simp add: best_color_index_def pam_colormap_def palette_at_def Let_def)

theorem best_color_index_total_on_nonempty_witness:
  "1 \<le> colors (pam_colormap 3) \<and>
   nat (colors (pam_colormap 3)) \<le> length (palette (pam_colormap 3)) \<and>
   best_color_index sq_difference query1 (pam_colormap 3) 0 (Some 0) = Inr (0, Some 1) \<and>
   palette \<lparr>palette = [], colors = 5\<rparr> = [] \<and>
   best_color_index sq_difference query1 \<lparr>palette = [], colors = 5\<rparr> 0 None = Inl Undefined_read"
proof -
  have h: "1 \<le> colors (pam_colormap 3) \<and>
      nat (colors (pam_colormap 3)) \<le> length (palette (pam_colormap 3))"
    by (simp add: pam_colormap_def)
  have ev: "best_color_index sq_difference query1 (pam_colormap 3) 0 (Some 0) = Inr (0, Some 1)"
    by (simp add: best_color_index_def pam_colormap_def palette_at_def query1_def
        best_color_loop.simps scan_step_def sq_difference_def power2_eq_square Let_def
        fl32_values)
  from best_color_index_total_on_nonempty
    [of "\<lparr>palette = [], colors = 5\<rparr>" sq_difference query1 0 None]
  have "best_color_index sq_difference query1 \<lparr>palette = [], colors = 5\<rparr> 0 None =
      Inl Undefined_read"
    by simp
  with h ev show ?thesis by simp
qed

subsection \<open>The distance output\<close>

text \<open>
  C10: when \<^verbatim>\<open>dist_out\<close> is supplied, the cell holds after the call the distance between
  the query and the palette entry at the returned index; when it is not supplied,
  nothing is written.
\<close>

theorem best_color_index_dist_out:
  "(best_color_index cd px cmap mo (Some old) = Inr (ind, out) \<longrightarrow>
      (\<exists>item. palette_at (palette cmap) ind = Inr item \<and> out = Some (cd px (acolor item)))) \<and>
   (best_color_index cd px cmap mo None = Inr (ind, out) \<longrightarrow> out = None)"
  using best_color_index_result [of cd px cmap mo "Some old" ind out]
    best_color_index_result [of cd px cmap mo None ind out]
  by auto

theorem best_color_index_dist_out_witness:
  "best_color_index sq_difference query1 (palette2 (1/16)) 0 (Some 7) = Inr (1, Some (1 / 4)) \<and>
   palette_at (palette (palette2 (1/16))) 1 = Inr (fpx (1/2) 0 0 0) \<and>
   sq_difference query1 (acolor (fpx (1/2) 0 0 0)) = 1 / 4 \<and>
   best_color_index sq_difference query1 (palette2 (1/16)) 0 None = Inr (1, None)"
proof -
  have e1: "best_color_index sq_difference query1 (palette2 (1/16)) 0 (Some 7) =
      Inr (1, Some (1 / 4))"
    by (simp add: best_color_index_def palette2_def fpx_def query1_def palette_at_def
        best_color_loop.simps scan_step_def sq_difference_def power2_eq_square Let_def
        fl32_values)
  have e2: "best_color_index sq_difference query1 (palette2 (1/16)) 0 None = Inr (1, None)"
    by (simp add: best_color_index_def palette2_def fpx_def query1_def palette_at_def
        best_color_loop.simps scan_step_def sq_difference_def power2_eq_square Let_def
        fl32_values)
  have rd: "palette_at (palette (palette2 (1/16))) 1 = Inr (fpx (1/2) 0 0 0)"
    by (simp add: palette2_def palette_at_def)
  from best_color_index_dist_out
    [of sq_difference query1 "palette2 (1/16)" 0 7 1 "Some (1 / 4)"] e1 rd
  have "sq_difference query1 (acolor (fpx (1/2) 0 0 0)) = 1 / 4" by simp
  with e1 e2 rd show ?thesis by simp
qed

section \<open>Properties of pam_computeacolorhash and pam_acolorhashtoacolorhist\<close>

declare col_loop.simps [simp del] row_loop.simps [simp del] hist_loop.simps [simp del]

subsection \<open>The loops scan the positions in order\<close>

lemma scan_positions_append:
  "scan_positions apixels maxc pmask (ps @ qs) s =
     (case scan_positions apixels maxc pmask ps s of
        Inl e \<Rightarrow> Inl e
      | Inr (Null m) \<Rightarrow> Inr (Null m)
      | Inr (Value s') \<Rightarrow> scan_positions apixels maxc pmask qs s')"
  by (induction ps arbitrary: s) (auto split: sum.splits or_null.splits)

lemma next_boost_default:
  "(imp = None \<longrightarrow> boost = 1) \<Longrightarrow> next_boost boost imp = next_boost 1 imp"
  by (auto simp: next_boost_def split: option.splits list.splits)

lemma next_boost_keeps_default:
  "(imp = None \<longrightarrow> boost = 1) \<Longrightarrow> next_boost boost imp = Inr (boost', imp') \<Longrightarrow>
   (imp' = None \<longrightarrow> boost' = 1)"
  by (auto simp: next_boost_def split: option.splits list.splits)

lemma col_loop_done:
  "\<not> int col < cols \<Longrightarrow> col_loop apixels cols maxc pmask row col s = Inr (Value s)"
  by (subst col_loop.simps) simp

lemma col_loop_step:
  "int col < cols \<Longrightarrow>
   col_loop apixels cols maxc pmask row col s =
     (case next_boost (fst s) (fst (snd s)) of
           Inl e \<Rightarrow> Inl e
         | Inr (boost, importance_map) \<Rightarrow>
             (case pixel_at apixels row col of
                Inl e \<Rightarrow> Inl e
              | Inr p \<Rightarrow>
                  (case hash_pixel maxc (rgb_as_long_l p AND pmask) boost (snd (snd s)) of
                     Null m \<Rightarrow> Inr (Null m)
                   | Value st \<Rightarrow>
                       col_loop apixels cols maxc pmask row (col + 1)
                         (boost, importance_map, st))))"
  by (subst col_loop.simps) simp

lemma col_loop_scan:
  "(fst (snd s) = None \<longrightarrow> fst s = 1) \<Longrightarrow>
   drop_boost (col_loop apixels cols maxc pmask row col s) =
     scan_positions apixels maxc pmask (map (Pair row) [col..<nat cols]) (snd s)"
proof (induction apixels cols maxc pmask row col s rule: col_loop.induct)
  case (1 apixels cols maxc pmask row col s)
  show ?case
  proof (cases "int col < cols")
    case False
    then have "[col..<nat cols] = []" by simp
    with False show ?thesis
      by (simp add: col_loop_done drop_boost_def)
  next
    case True
    then have upt: "[col..<nat cols] = col # [col + 1..<nat cols]"
      by (simp add: upt_conv_Cons)
    note step = col_loop_step [OF True, of apixels maxc pmask row s]
    from "1.prems" have nb: "next_boost 1 (fst (snd s)) = next_boost (fst s) (fst (snd s))"
      by (rule next_boost_default [symmetric])
    show ?thesis
    proof (cases "next_boost (fst s) (fst (snd s))")
      case (Inl e)
      show ?thesis
        unfolding step upt by (simp add: nb Inl drop_boost_def)
    next
      case (Inr bi)
      obtain boost imp where bi: "bi = (boost, imp)" by (cases bi)
      from "1.prems" Inr bi have keep: "imp = None \<longrightarrow> boost = 1"
        using next_boost_keeps_default [of "fst (snd s)" "fst s" boost imp] by simp
      show ?thesis
      proof (cases "pixel_at apixels row col")
        case (Inl e)
        show ?thesis
          unfolding step upt by (simp add: nb Inr bi Inl drop_boost_def)
      next
        case pix: (Inr p)
        show ?thesis
        proof (cases "hash_pixel maxc (rgb_as_long_l p AND pmask) boost (snd (snd s))")
          case (Null m)
          show ?thesis
            unfolding step upt by (simp add: nb Inr bi pix Null drop_boost_def)
        next
          case (Value st)
          from "1.IH" [OF True Inr bi [symmetric] pix Value] keep
          have ih: "drop_boost (col_loop apixels cols maxc pmask row (col + 1) (boost, imp, st)) =
            scan_positions apixels maxc pmask (map (Pair row) [col + 1..<nat cols]) (imp, st)"
            by simp
          have "col_loop apixels cols maxc pmask row col s =
              col_loop apixels cols maxc pmask row (col + 1) (boost, imp, st)"
            unfolding step by (simp add: Inr bi pix Value)
          moreover have "scan_positions apixels maxc pmask (map (Pair row) [col..<nat cols]) (snd s) =
              scan_positions apixels maxc pmask (map (Pair row) [col + 1..<nat cols]) (imp, st)"
            unfolding upt by (simp add: nb Inr bi pix Value)
          ultimately show ?thesis using ih by simp
        qed
      qed
    qed
  qed
qed

lemma row_loop_scan:
  "row_loop apixels cols rows maxc pmask row s =
     scan_positions apixels maxc pmask (List.product [row..<nat rows] [0..<nat cols]) s"
proof (induction apixels cols rows maxc pmask row s rule: row_loop.induct)
  case (1 apixels cols rows maxc pmask row s)
  note unfold = row_loop.simps [of apixels cols rows maxc pmask row s]
  show ?case
  proof (cases "int row < rows")
    case False
    then have "[row..<nat rows] = []" by simp
    with False show ?thesis
      by (simp add: unfold)
  next
    case True
    then have upt: "[row..<nat rows] = row # [row + 1..<nat rows]"
      by (simp add: upt_conv_Cons)
    have col: "scan_positions apixels maxc pmask (map (Pair row) [0..<nat cols]) s =
        drop_boost (col_loop apixels cols maxc pmask row 0 (1, s))"
      using col_loop_scan [of "(1, s)" apixels cols maxc pmask row 0] by simp
    show ?thesis
    proof (cases "col_loop apixels cols maxc pmask row 0 (1, s)")
      case (Inl e)
      show ?thesis
        unfolding upt by (simp add: unfold True scan_positions_append col Inl drop_boost_def)
    next
      case (Inr r)
      show ?thesis
      proof (cases r)
        case (Null m)
        show ?thesis
          unfolding upt by (simp add: unfold True scan_positions_append col Inr Null drop_boost_def)
      next
        case (Value s')
        from "1.IH" [OF True Inr Value]
        have ih: "row_loop apixels cols rows maxc pmask (row + 1) (snd s') =
          scan_positions apixels maxc pmask (List.product [row + 1..<nat rows] [0..<nat cols]) (snd s')" .
        have "row_loop apixels cols rows maxc pmask row s =
            row_loop apixels cols rows maxc pmask (row + 1) (snd s')"
          by (subst unfold) (simp add: True Inr Value)
        moreover have "scan_positions apixels maxc pmask
              (List.product [row..<nat rows] [0..<nat cols]) s =
            scan_positions apixels maxc pmask
              (List.product [row + 1..<nat rows] [0..<nat cols]) (snd s')"
          unfolding upt by (simp add: scan_positions_append col Inr Value drop_boost_def)
        ultimately show ?thesis using ih by simp
      qed
    qed
  qed
qed

subsection \<open>The scan of readable positions\<close>

lemma scan_positions_readable:
  "readable apixels imp ps \<Longrightarrow>
   scan_positions apixels maxc pmask ps (imp, st) =
     Inr (case hash_pixels maxc (pixel_stream pmask apixels imp ps) st of
            Null m \<Rightarrow> Null m
          | Value st' \<Rightarrow> Value (map_option (drop (length ps)) imp, st'))"
proof (induction ps arbitrary: imp st)
  case Nil
  then show ?case
    by (cases imp) (simp_all add: pixel_stream_def posterized_def boosts_def)
next
  case (Cons pos ps)
  from Cons.prems have pix: "pixel_at apixels (fst pos) (snd pos) = Inr (apixels ! fst pos ! snd pos)"
    by (simp add: readable_def pixel_at_def)
  show ?case
  proof (cases imp)
    case None
    with Cons.prems have rd: "readable apixels None ps" by (simp add: readable_def)
    have str: "pixel_stream pmask apixels None (pos # ps) =
        (rgb_as_long_l (apixels ! fst pos ! snd pos) AND pmask, 1) # pixel_stream pmask apixels None ps"
      by (simp add: pixel_stream_def posterized_def boosts_def)
    show ?thesis
      unfolding None str
      by (simp add: next_boost_def pix Cons.IH [OF rd] split: or_null.splits)
  next
    case (Some m)
    with Cons.prems obtain v rest where m: "m = v # rest"
      by (cases m) (auto simp: readable_def)
    with Cons.prems Some have rd: "readable apixels (Some rest) ps" by (simp add: readable_def)
    have str: "pixel_stream pmask apixels (Some (v # rest)) (pos # ps) =
        (rgb_as_long_l (apixels ! fst pos ! snd pos) AND pmask, fl32 (fl64 (1 / 2 + v))) #
        pixel_stream pmask apixels (Some rest) ps"
      by (simp add: pixel_stream_def posterized_def boosts_def)
    show ?thesis
      unfolding Some m str
      by (simp add: next_boost_def pix Cons.IH [OF rd] split: or_null.splits)
  qed
qed

lemma scan_positions_Value_readable:
  "scan_positions apixels maxc pmask ps (imp, st) = Inr (Value s') \<Longrightarrow>
   readable apixels imp ps"
proof (induction ps arbitrary: imp st)
  case Nil
  then show ?case by (simp add: readable_def split: option.splits)
next
  case (Cons pos ps)
  from Cons.prems obtain boost imp' p st' where
    nb: "next_boost 1 imp = Inr (boost, imp')" and
    pix: "pixel_at apixels (fst pos) (snd pos) = Inr p" and
    rest: "scan_positions apixels maxc pmask ps (imp', st') = Inr (Value s')"
    by (auto split: sum.splits or_null.splits)
  from Cons.IH [OF rest] have rd: "readable apixels imp' ps" .
  from pix have "fst pos < length apixels \<and> snd pos < length (apixels ! fst pos)"
    by (simp add: pixel_at_def split: if_splits)
  with rd nb show ?case
    by (auto simp: readable_def next_boost_def split: option.splits list.splits)
qed

lemma hash_pixels_snoc:
  "hash_pixels maxc (xs @ [x]) st =
     (case hash_pixels maxc xs st of
        Null m \<Rightarrow> Null m
      | Value st' \<Rightarrow> hash_pixel maxc (fst x) (snd x) st')"
  by (induction xs arbitrary: st) (auto split: or_null.splits)

lemma hash_pixels_append:
  "hash_pixels maxc (xs @ ys) st =
     (case hash_pixels maxc xs st of
        Null m \<Rightarrow> Null m
      | Value st' \<Rightarrow> hash_pixels maxc ys st')"
  by (induction xs arbitrary: st) (auto split: or_null.splits)

subsection \<open>The table invariant\<close>

lemma bump_chain_None: "bump_chain l b ch = None \<longleftrightarrow> l \<notin> color ` set ch"
  by (induction ch) auto

lemma bump_chain_Some:
  "bump_chain l b ch = Some ch' \<Longrightarrow>
   map color ch' = map color ch \<and>
   chain_weights ch' = (chain_weights ch)(l \<mapsto> fl32 (the (chain_weights ch l) + b))"
proof (induction ch arbitrary: ch')
  case Nil
  then show ?case by simp
next
  case (Cons achl ch)
  show ?case
  proof (cases "color achl = l")
    case True
    with Cons.prems show ?thesis
      by (auto simp: chain_weights_def)
  next
    case False
    with Cons.prems obtain ch0 where b: "bump_chain l b ch = Some ch0" and c: "ch' = achl # ch0"
      by auto
    from Cons.IH [OF b] False c show ?thesis
      by (auto simp: chain_weights_def fun_upd_twist)
  qed
qed

lemma chain_weights_None: "chain_weights ch c = None \<longleftrightarrow> c \<notin> color ` set ch"
  by (simp add: chain_weights_def map_of_eq_None_iff image_image)

lemma represents_empty: "represents (\<lambda>i. []) []"
  by (simp add: represents_def chain_weights_def)

lemma represents_found:
  assumes rep: "represents bk xs" and mem: "l \<in> fst ` set xs"
  shows "\<exists>ch'. bump_chain l b (bk (unat l mod HASH_SIZE)) = Some ch' \<and>
           represents (bk(unat l mod HASH_SIZE := ch')) (xs @ [(l, b)])"
proof -
  let ?h = "unat l mod HASH_SIZE"
  from rep mem have w: "chain_weights (bk ?h) l = Some (accumulated xs l)"
    by (simp add: represents_def)
  then have "l \<in> color ` set (bk ?h)"
    using chain_weights_None [of "bk ?h" l] by auto
  then obtain ch' where b: "bump_chain l b (bk ?h) = Some ch'"
    using bump_chain_None [of l b "bk ?h"] by (cases "bump_chain l b (bk ?h)") auto
  from bump_chain_Some [OF b] w
  have cols: "map color ch' = map color (bk ?h)"
    and wts: "chain_weights ch' = (chain_weights (bk ?h))(l \<mapsto> fl32 (accumulated xs l + b))"
    by simp_all
  from cols have sets: "color ` set ch' = color ` set (bk ?h)"
    by (metis list.set_map)
  have "represents (bk(?h := ch')) (xs @ [(l, b)])"
    unfolding represents_def
  proof (intro conjI allI)
    fix h
    show "\<forall>achl\<in>set ((bk(?h := ch')) h). unat (color achl) mod HASH_SIZE = h"
    proof (cases "h = ?h")
      case True
      have "\<forall>c \<in> color ` set ch'. unat c mod HASH_SIZE = ?h"
        unfolding sets using rep by (auto simp: represents_def)
      with True show ?thesis by auto
    next
      case False
      with rep show ?thesis by (simp add: represents_def)
    qed
    show "distinct (map color ((bk(?h := ch')) h))"
      using rep cols by (cases "h = ?h") (simp_all add: represents_def)
  next
    fix c
    show "chain_weights ((bk(?h := ch')) (unat c mod HASH_SIZE)) c =
        (if c \<in> fst ` set (xs @ [(l, b)]) then Some (accumulated (xs @ [(l, b)]) c) else None)"
    proof (cases "c = l")
      case True
      with wts mem show ?thesis by (simp add: accumulated_snoc)
    next
      case False
      from rep have old: "chain_weights (bk (unat c mod HASH_SIZE)) c =
          (if c \<in> fst ` set xs then Some (accumulated xs c) else None)"
        by (simp add: represents_def)
      show ?thesis
      proof (cases "unat c mod HASH_SIZE = ?h")
        case True
        with False wts old show ?thesis by (auto simp: accumulated_snoc)
      next
        case h: False
        with False old show ?thesis by (auto simp: accumulated_snoc)
      qed
    qed
  qed
  with b show ?thesis by blast
qed

lemma represents_new:
  assumes rep: "represents bk xs" and new: "l \<notin> fst ` set xs"
  shows "bump_chain l b (bk (unat l mod HASH_SIZE)) = None \<and>
         represents (bk(unat l mod HASH_SIZE :=
             \<lparr>color = l, perceptual_weight_achl = b\<rparr> # bk (unat l mod HASH_SIZE)))
           (xs @ [(l, b)])"
proof -
  let ?h = "unat l mod HASH_SIZE"
  let ?ch = "\<lparr>color = l, perceptual_weight_achl = b\<rparr> # bk ?h"
  from rep new have w: "chain_weights (bk ?h) l = None"
    by (simp add: represents_def)
  then have notin: "l \<notin> color ` set (bk ?h)"
    by (simp add: chain_weights_None)
  then have b: "bump_chain l b (bk ?h) = None"
    by (simp add: bump_chain_None)
  have "represents (bk(?h := ?ch)) (xs @ [(l, b)])"
    unfolding represents_def
  proof (intro conjI allI)
    fix h
    show "\<forall>achl\<in>set ((bk(?h := ?ch)) h). unat (color achl) mod HASH_SIZE = h"
      using rep by (cases "h = ?h") (auto simp: represents_def)
    show "distinct (map color ((bk(?h := ?ch)) h))"
      using rep notin by (cases "h = ?h") (auto simp: represents_def)
  next
    fix c
    from rep have old: "chain_weights (bk (unat c mod HASH_SIZE)) c =
        (if c \<in> fst ` set xs then Some (accumulated xs c) else None)"
      by (simp add: represents_def)
    show "chain_weights ((bk(?h := ?ch)) (unat c mod HASH_SIZE)) c =
        (if c \<in> fst ` set (xs @ [(l, b)]) then Some (accumulated (xs @ [(l, b)]) c) else None)"
    proof (cases "c = l")
      case True
      with new show ?thesis by (simp add: accumulated_snoc chain_weights_def)
    next
      case False
      with old show ?thesis
        by (cases "unat c mod HASH_SIZE = ?h") (auto simp: accumulated_snoc chain_weights_def)
    qed
  qed
  with b show ?thesis by blast
qed

lemma over_cap_snoc: "over_cap maxc xs \<Longrightarrow> over_cap maxc (xs @ [x])"
proof -
  assume o: "over_cap maxc xs"
  have "card (set (map fst xs)) \<le> card (set (map fst (xs @ [x])))"
    by (rule card_mono) auto
  with o show ?thesis by (simp add: over_cap_def)
qed

lemma free_is_empty: "pam_freeacolorhash acht = []"
  by (simp add: pam_freeacolorhash_def mempool_free_def)

lemma hash_pixels_from_empty:
  "(over_cap maxc xs \<longrightarrow> hash_pixels maxc xs (pam_allocacolorhash, 0) = Null []) \<and>
   (\<not> over_cap maxc xs \<longrightarrow>
      (\<exists>acht. hash_pixels maxc xs (pam_allocacolorhash, 0) =
                 Value (acht, int (card (fst ` set xs))) \<and>
              represents (buckets acht) xs))"
proof (induction xs rule: rev_induct)
  case Nil
  show ?case
    by (simp add: over_cap_def pam_allocacolorhash_def represents_empty)
next
  case (snoc x xs)
  obtain l b where x: "x = (l, b)" by (cases x)
  show ?case
  proof (cases "over_cap maxc xs")
    case True
    with snoc have "hash_pixels maxc xs (pam_allocacolorhash, 0) = Null []" by simp
    then have "hash_pixels maxc (xs @ [x]) (pam_allocacolorhash, 0) = Null []"
      by (simp add: hash_pixels_snoc)
    with over_cap_snoc [OF True, of x] show ?thesis by simp
  next
    case False
    with snoc obtain acht where
      run: "hash_pixels maxc xs (pam_allocacolorhash, 0) = Value (acht, int (card (fst ` set xs)))"
      and rep: "represents (buckets acht) xs"
      by auto
    let ?h = "unat l mod HASH_SIZE"
    let ?n = "int (card (fst ` set xs))"
    have step: "hash_pixels maxc (xs @ [x]) (pam_allocacolorhash, 0) =
        hash_pixel maxc l b (acht, ?n)"
      by (simp add: hash_pixels_snoc run x)
    show ?thesis
    proof (cases "l \<in> fst ` set xs")
      case True
      from represents_found [OF rep True, of b] obtain ch' where
        bump: "bump_chain l b (buckets acht ?h) = Some ch'" and
        rep': "represents ((buckets acht)(?h := ch')) (xs @ [(l, b)])"
        by blast
      from True have same: "fst ` set (xs @ [x]) = fst ` set xs"
        by (auto simp: x)
      from True have "xs \<noteq> []" by auto
      with False have "\<not> over_cap maxc (xs @ [x])"
        using same by (simp add: over_cap_def)
      moreover have "hash_pixel maxc l b (acht, ?n) =
          Value (acht\<lparr>buckets := (buckets acht)(?h := ch')\<rparr>, ?n)"
        by (simp add: hash_pixel_def Let_def bump)
      ultimately show ?thesis
        using rep' step same by (auto simp: x)
    next
      case new: False
      from represents_new [OF rep new, of b] have
        bump: "bump_chain l b (buckets acht ?h) = None" and
        rep': "represents ((buckets acht)(?h :=
             \<lparr>color = l, perceptual_weight_achl = b\<rparr> # buckets acht ?h)) (xs @ [(l, b)])"
        by blast+
      from new have cnt: "int (card (fst ` set (xs @ [x]))) = ?n + 1"
        by (simp add: x)
      show ?thesis
      proof (cases "?n + 1 > maxc")
        case True
        then have "hash_pixel maxc l b (acht, ?n) = Null []"
          by (simp add: hash_pixel_def Let_def bump free_is_empty)
        moreover from True cnt have "over_cap maxc (xs @ [x])"
          by (simp add: over_cap_def)
        ultimately show ?thesis using step by simp
      next
        case fits: False
        then have "hash_pixel maxc l b (acht, ?n) =
          Value (acht\<lparr>buckets := (buckets acht)(?h :=
                     \<lparr>color = l, perceptual_weight_achl = b\<rparr> # buckets acht ?h),
                   mempool := mempool_new (mempool acht) Item_block\<rparr>, ?n + 1)"
          by (simp add: hash_pixel_def Let_def bump)
        moreover from fits cnt have "\<not> over_cap maxc (xs @ [x])"
          by (simp add: over_cap_def)
        ultimately show ?thesis
          using rep' step cnt by (auto simp: x)
      qed
    qed
  qed
qed

subsection \<open>Flattening the table\<close>

lemma chain_to_hist_fits:
  "int (length written + length ch) \<le> hs \<Longrightarrow>
   chain_to_hist to_f gamma hs ch written =
     Inr (written @ map (\<lambda>achl. entry_of to_f gamma (color achl) (perceptual_weight_achl achl)) ch)"
  by (induction ch arbitrary: written) (auto simp: entry_of_def)

lemma hist_loop_done: "\<not> i < HASH_SIZE \<Longrightarrow> hist_loop to_f gamma hs acht i written = Inr written"
  by (subst hist_loop.simps) simp

lemma hist_loop_step:
  "i < HASH_SIZE \<Longrightarrow>
   hist_loop to_f gamma hs acht i written =
     (case chain_to_hist to_f gamma hs (buckets acht i) written of
        Inl e \<Rightarrow> Inl e
      | Inr written' \<Rightarrow> hist_loop to_f gamma hs acht (i + 1) written')"
  by (subst hist_loop.simps) simp

lemma hist_loop_fits:
  "int (length written + length (concat (map (buckets acht) [i..<HASH_SIZE]))) \<le> hs \<Longrightarrow>
   hist_loop to_f gamma hs acht i written =
     Inr (written @
          map (\<lambda>achl. entry_of to_f gamma (color achl) (perceptual_weight_achl achl))
            (concat (map (buckets acht) [i..<HASH_SIZE])))"
proof (induction to_f gamma hs acht i written rule: hist_loop.induct)
  case (1 to_f gamma hs acht i written)
  show ?case
  proof (cases "i < HASH_SIZE")
    case False
    then show ?thesis by (simp add: hist_loop_done)
  next
    case True
    then have upt: "[i..<HASH_SIZE] = i # [i + 1..<HASH_SIZE]"
      by (simp add: upt_conv_Cons)
    let ?mk = "\<lambda>achl. entry_of to_f gamma (color achl) (perceptual_weight_achl achl)"
    let ?w = "written @ map ?mk (buckets acht i)"
    from "1.prems" have fit1: "int (length written + length (buckets acht i)) \<le> hs"
      unfolding upt by simp
    then have ch: "chain_to_hist to_f gamma hs (buckets acht i) written = Inr ?w"
      by (rule chain_to_hist_fits)
    from "1.prems" have fit2:
      "int (length ?w + length (concat (map (buckets acht) [i + 1..<HASH_SIZE]))) \<le> hs"
      unfolding upt by simp
    from "1.IH" [OF True ch fit2]
    have "hist_loop to_f gamma hs acht (i + 1) ?w =
        Inr (?w @ map ?mk (concat (map (buckets acht) [i + 1..<HASH_SIZE])))" .
    then show ?thesis
      unfolding hist_loop_step [OF True] ch upt by simp
  qed
qed

lemma distinct_concat_by_key:
  "(\<And>i. i < n \<Longrightarrow> distinct (f i)) \<Longrightarrow> (\<And>i x. i < n \<Longrightarrow> x \<in> set (f i) \<Longrightarrow> key x = i) \<Longrightarrow>
   distinct (concat (map f [0..<n]))"
proof (induction n)
  case 0
  then show ?case by simp
next
  case (Suc n)
  have "distinct (concat (map f [0..<n]))"
    by (rule Suc.IH) (auto intro: Suc.prems)
  moreover have "distinct (f n)" by (rule Suc.prems) simp
  moreover have "set (concat (map f [0..<n])) \<inter> set (f n) = {}"
  proof (rule ccontr)
    assume "set (concat (map f [0..<n])) \<inter> set (f n) \<noteq> {}"
    then obtain x i where "i < n" "x \<in> set (f i)" "x \<in> set (f n)" by auto
    then have "key x = i" "key x = n" by (auto dest: Suc.prems(2) [rotated])
    with \<open>i < n\<close> show False by simp
  qed
  ultimately show ?case by simp
qed

lemma HASH_SIZE_pos: "0 < HASH_SIZE"
  by (simp add: HASH_SIZE_def)

lemma represents_nodes:
  assumes rep: "represents bk xs"
  defines "ns \<equiv> concat (map bk [0..<HASH_SIZE])"
  shows "distinct (map color ns)"
    and "color ` set ns = fst ` set xs"
    and "\<forall>achl \<in> set ns. perceptual_weight_achl achl = accumulated xs (color achl)"
proof -
  from rep have key: "\<And>h achl. achl \<in> set (bk h) \<Longrightarrow> unat (color achl) mod HASH_SIZE = h"
    and dist: "\<And>h. distinct (map color (bk h))"
    and wts: "\<And>c. chain_weights (bk (unat c mod HASH_SIZE)) c =
           (if c \<in> fst ` set xs then Some (accumulated xs c) else None)"
    by (auto simp: represents_def)
  have "map color ns = concat (map (\<lambda>h. map color (bk h)) [0..<HASH_SIZE])"
    by (simp add: ns_def map_concat comp_def)
  moreover have "distinct (concat (map (\<lambda>h. map color (bk h)) [0..<HASH_SIZE]))"
  proof (rule distinct_concat_by_key [where key = "\<lambda>c. unat c mod HASH_SIZE"])
    fix i show "distinct (map color (bk i))" by (rule dist)
  next
    fix i x assume "x \<in> set (map color (bk i))"
    then show "unat x mod HASH_SIZE = i" by (auto dest: key)
  qed
  ultimately show "distinct (map color ns)" by simp
  have in_ns: "\<And>achl. achl \<in> set ns \<longleftrightarrow> achl \<in> set (bk (unat (color achl) mod HASH_SIZE))"
  proof
    fix achl assume "achl \<in> set ns"
    then obtain h where "achl \<in> set (bk h)" by (auto simp: ns_def)
    with key [OF this] show "achl \<in> set (bk (unat (color achl) mod HASH_SIZE))" by simp
  next
    fix achl assume "achl \<in> set (bk (unat (color achl) mod HASH_SIZE))"
    moreover have "unat (color achl) mod HASH_SIZE < HASH_SIZE"
      using HASH_SIZE_pos by simp
    ultimately show "achl \<in> set ns" by (auto simp: ns_def)
  qed
  have node_w: "\<And>achl. achl \<in> set ns \<Longrightarrow>
      chain_weights (bk (unat (color achl) mod HASH_SIZE)) (color achl) =
        Some (perceptual_weight_achl achl)"
  proof -
    fix achl assume "achl \<in> set ns"
    then have m: "achl \<in> set (bk (unat (color achl) mod HASH_SIZE))" by (simp add: in_ns)
    have "distinct (map fst (map (\<lambda>achl. (color achl, perceptual_weight_achl achl))
              (bk (unat (color achl) mod HASH_SIZE))))"
      using dist [of "unat (color achl) mod HASH_SIZE"] by (simp add: comp_def)
    moreover from m have "(color achl, perceptual_weight_achl achl) \<in>
        set (map (\<lambda>achl. (color achl, perceptual_weight_achl achl))
              (bk (unat (color achl) mod HASH_SIZE)))"
      by auto
    ultimately show "chain_weights (bk (unat (color achl) mod HASH_SIZE)) (color achl) =
        Some (perceptual_weight_achl achl)"
      unfolding chain_weights_def by (rule map_of_is_SomeI)
  qed
  show "\<forall>achl \<in> set ns. perceptual_weight_achl achl = accumulated xs (color achl)"
  proof
    fix achl assume a: "achl \<in> set ns"
    from node_w [OF a] wts [of "color achl"] show "perceptual_weight_achl achl = accumulated xs (color achl)"
      by (simp split: if_splits)
  qed
  show "color ` set ns = fst ` set xs"
  proof (intro set_eqI iffI)
    fix c assume "c \<in> color ` set ns"
    then obtain achl where a: "achl \<in> set ns" and c: "c = color achl" by auto
    from node_w [OF a] wts [of "color achl"] c show "c \<in> fst ` set xs"
      by (simp split: if_splits)
  next
    fix c assume "c \<in> fst ` set xs"
    with wts [of c] have "chain_weights (bk (unat c mod HASH_SIZE)) c \<noteq> None" by simp
    then have "c \<in> color ` set (bk (unat c mod HASH_SIZE))"
      by (simp add: chain_weights_None)
    then obtain achl where "achl \<in> set (bk (unat c mod HASH_SIZE))" "c = color achl" by auto
    then have "achl \<in> set ns" by (simp add: in_ns)
    with \<open>c = color achl\<close> show "c \<in> color ` set ns" by auto
  qed
qed



subsection \<open>The table of an image\<close>

lemma computeacolorhash_scan:
  "posterize_mask ib = Inr pmask \<Longrightarrow>
   pam_computeacolorhash apixels cols rows gamma maxc ib imp =
     (case scan_positions apixels maxc pmask (scan_order cols rows) (imp, pam_allocacolorhash, 0) of
        Inl e \<Rightarrow> Inl e
      | Inr (Null m) \<Rightarrow> Inr (Null m)
      | Inr (Value s) \<Rightarrow> Inr (Value (snd s)))"
  by (simp add: pam_computeacolorhash_def row_loop_scan scan_order_def)

lemma computeacolorhash_ok:
  assumes pm: "posterize_mask ib = Inr pmask" and ok: "image_ok apixels cols rows imp"
  shows "pam_computeacolorhash apixels cols rows gamma maxc ib imp =
     Inr (hash_pixels maxc (pixel_stream pmask apixels imp (scan_order cols rows))
            (pam_allocacolorhash, 0))"
proof -
  from ok have rd: "readable apixels imp (scan_order cols rows)" by (simp add: image_ok_def)
  show ?thesis
    unfolding computeacolorhash_scan [OF pm] scan_positions_readable [OF rd]
    by (simp split: or_null.splits)
qed

lemma computeacolorhash_prefix_over:
  assumes pm: "posterize_mask ib = Inr pmask"
    and rd: "readable apixels imp (take k (scan_order cols rows))"
    and over: "over_cap maxc (pixel_stream pmask apixels imp (take k (scan_order cols rows)))"
  shows "pam_computeacolorhash apixels cols rows gamma maxc ib imp = Inr (Null [])"
proof -
  let ?ps = "scan_order cols rows"
  from over hash_pixels_from_empty [of maxc "pixel_stream pmask apixels imp (take k ?ps)"]
  have "hash_pixels maxc (pixel_stream pmask apixels imp (take k ?ps)) (pam_allocacolorhash, 0) =
      Null []" by simp
  then have "scan_positions apixels maxc pmask (take k ?ps) (imp, pam_allocacolorhash, 0) =
      Inr (Null [])"
    by (simp add: scan_positions_readable [OF rd])
  then have "scan_positions apixels maxc pmask (take k ?ps @ drop k ?ps)
      (imp, pam_allocacolorhash, 0) = Inr (Null [])"
    unfolding scan_positions_append by simp
  then show ?thesis
    by (simp add: computeacolorhash_scan [OF pm])
qed

lemma computeacolorhash_over:
  assumes pm: "posterize_mask ib = Inr pmask" and ok: "image_ok apixels cols rows imp"
    and over: "over_cap maxc (pixel_stream pmask apixels imp (scan_order cols rows))"
  shows "pam_computeacolorhash apixels cols rows gamma maxc ib imp = Inr (Null [])"
proof -
  let ?ps = "scan_order cols rows"
  from ok have r: "readable apixels imp (take (length ?ps) ?ps)" by (simp add: image_ok_def)
  from over have o: "over_cap maxc (pixel_stream pmask apixels imp (take (length ?ps) ?ps))"
    by simp
  show ?thesis by (rule computeacolorhash_prefix_over [OF pm r o])
qed

lemma computeacolorhash_fits:
  assumes pm: "posterize_mask ib = Inr pmask" and ok: "image_ok apixels cols rows imp"
    and fits: "\<not> over_cap maxc (pixel_stream pmask apixels imp (scan_order cols rows))"
  shows "\<exists>acht. pam_computeacolorhash apixels cols rows gamma maxc ib imp =
             Inr (Value (acht, int (card (fst ` set (pixel_stream pmask apixels imp
                                                      (scan_order cols rows)))))) \<and>
           represents (buckets acht) (pixel_stream pmask apixels imp (scan_order cols rows))"
  using fits hash_pixels_from_empty [of maxc "pixel_stream pmask apixels imp (scan_order cols rows)"]
  by (auto simp: computeacolorhash_ok [OF pm ok])

lemma computeacolorhash_Value_ok:
  assumes hash: "pam_computeacolorhash apixels cols rows gamma maxc ib imp = Inr (Value (acht, n))"
  shows "\<exists>pmask. posterize_mask ib = Inr pmask \<and> image_ok apixels cols rows imp"
proof -
  from hash obtain pmask where pm: "posterize_mask ib = Inr pmask"
    by (cases "posterize_mask ib") (auto simp: pam_computeacolorhash_def)
  from hash obtain s where
    "scan_positions apixels maxc pmask (scan_order cols rows) (imp, pam_allocacolorhash, 0) =
       Inr (Value s)"
    unfolding computeacolorhash_scan [OF pm] by (auto split: sum.splits or_null.splits)
  then have "readable apixels imp (scan_order cols rows)"
    by (rule scan_positions_Value_readable)
  with pm show ?thesis by (auto simp: image_ok_def)
qed

lemma computeacolorhash_Value:
  assumes hash: "pam_computeacolorhash apixels cols rows gamma maxc ib imp = Inr (Value (acht, n))"
  shows "\<exists>pmask. posterize_mask ib = Inr pmask \<and> image_ok apixels cols rows imp \<and>
           \<not> over_cap maxc (pixel_stream pmask apixels imp (scan_order cols rows)) \<and>
           n = int (card (fst ` set (pixel_stream pmask apixels imp (scan_order cols rows)))) \<and>
           represents (buckets acht) (pixel_stream pmask apixels imp (scan_order cols rows))"
proof -
  from computeacolorhash_Value_ok [OF hash] obtain pmask where
    pm: "posterize_mask ib = Inr pmask" and ok: "image_ok apixels cols rows imp" by blast
  let ?xs = "pixel_stream pmask apixels imp (scan_order cols rows)"
  have fits: "\<not> over_cap maxc ?xs"
  proof
    assume "over_cap maxc ?xs"
    from computeacolorhash_over [OF pm ok this, of gamma] hash show False by simp
  qed
  from computeacolorhash_fits [OF pm ok fits, of gamma] hash pm ok fits
  show ?thesis by auto
qed

lemma represents_written:
  assumes rep: "represents (buckets acht) xs"
  shows "distinct (map color (table_nodes acht))"
    and "set (map color (table_nodes acht)) = fst ` set xs"
    and "length (table_nodes acht) = card (fst ` set xs)"
    and "map perceptual_weight_achl (table_nodes acht) =
           map (accumulated xs) (map color (table_nodes acht))"
    and "hist_loop to_f gamma (int (card (fst ` set xs))) acht 0 [] =
           Inr (map (\<lambda>c. entry_of to_f gamma c (accumulated xs c)) (map color (table_nodes acht)))"
proof -
  let ?ns = "table_nodes acht"
  note nodes = represents_nodes [OF rep, folded table_nodes_def]
  from nodes(1) show d: "distinct (map color ?ns)" .
  from nodes(2) show s: "set (map color ?ns) = fst ` set xs" by simp
  from d s show len: "length ?ns = card (fst ` set xs)"
    using distinct_card [of "map color ?ns"] by simp
  from nodes(3) show "map perceptual_weight_achl ?ns = map (accumulated xs) (map color ?ns)"
    by (simp add: comp_def)
  have "hist_loop to_f gamma (int (card (fst ` set xs))) acht 0 [] =
      Inr ([] @ map (\<lambda>achl. entry_of to_f gamma (color achl) (perceptual_weight_achl achl))
                  (concat (map (buckets acht) [0..<HASH_SIZE])))"
    by (rule hist_loop_fits) (use len in \<open>simp add: table_nodes_def\<close>)
  moreover have "map (\<lambda>achl. entry_of to_f gamma (color achl) (perceptual_weight_achl achl)) ?ns =
      map (\<lambda>c. entry_of to_f gamma c (accumulated xs c)) (map color ?ns)"
    using nodes(3) by (simp add: comp_def)
  ultimately show "hist_loop to_f gamma (int (card (fst ` set xs))) acht 0 [] =
      Inr (map (\<lambda>c. entry_of to_f gamma c (accumulated xs c)) (map color ?ns))"
    by (simp add: table_nodes_def)
qed

lemma readable_stream_fst:
  "readable apixels imp ps \<Longrightarrow>
   map fst (pixel_stream pmask apixels imp ps) = posterized pmask apixels ps"
  by (cases imp) (auto simp: pixel_stream_def readable_def boosts_def posterized_def)

lemma readable_stream_snd:
  "readable apixels imp ps \<Longrightarrow>
   map snd (pixel_stream pmask apixels imp ps) = boosts imp (length ps)"
  by (cases imp) (auto simp: pixel_stream_def readable_def boosts_def posterized_def)

lemma length_scan_order: "length (scan_order cols rows) = nat cols * nat rows"
  by (simp add: scan_order_def)

lemma posterized_coarser:
  "pm1 AND pm2 = pm2 \<Longrightarrow>
   posterized pm2 apixels ps = map (\<lambda>c. c AND pm2) (posterized pm1 apixels ps)"
  by (simp add: posterized_def comp_def and.assoc)


text \<open>
  What a returned table holds, in terms of the image: one node for each posterized colour,
  its weight the accumulation of the boosts of that colour, and the entries that the loops
  of lines 156-164 write for it.
\<close>

lemma computeacolorhash_Value_stream:
  assumes hash: "pam_computeacolorhash apixels cols rows gamma maxc ib imp = Inr (Value (acht, n))"
  shows "\<exists>pmask. posterize_mask ib = Inr pmask \<and> image_ok apixels cols rows imp \<and>
           distinct (map color (table_nodes acht)) \<and>
           set (map color (table_nodes acht)) =
             set (posterized pmask apixels (scan_order cols rows)) \<and>
           n = int (length (table_nodes acht)) \<and>
           n = int (card (set (posterized pmask apixels (scan_order cols rows)))) \<and>
           n \<le> max 0 maxc \<and>
           map perceptual_weight_achl (table_nodes acht) =
             map (accumulated (pixel_stream pmask apixels imp (scan_order cols rows)))
               (map color (table_nodes acht)) \<and>
           (\<forall>to_f g. hist_loop to_f g n acht 0 [] =
              Inr (map (\<lambda>c. entry_of to_f g c
                              (accumulated (pixel_stream pmask apixels imp (scan_order cols rows)) c))
                     (map color (table_nodes acht))))"
proof -
  from computeacolorhash_Value [OF hash] obtain pmask where
    pm: "posterize_mask ib = Inr pmask" and ok: "image_ok apixels cols rows imp" and
    fits: "\<not> over_cap maxc (pixel_stream pmask apixels imp (scan_order cols rows))" and
    n: "n = int (card (fst ` set (pixel_stream pmask apixels imp (scan_order cols rows))))" and
    rep: "represents (buckets acht) (pixel_stream pmask apixels imp (scan_order cols rows))"
    by blast
  let ?xs = "pixel_stream pmask apixels imp (scan_order cols rows)"
  from ok have rd: "readable apixels imp (scan_order cols rows)" by (simp add: image_ok_def)
  have fs: "fst ` set ?xs = set (posterized pmask apixels (scan_order cols rows))"
    using readable_stream_fst [OF rd, of pmask] by (metis list.set_map)
  from fits have cap: "int (card (fst ` set ?xs)) \<le> max 0 maxc"
    by (auto simp: over_cap_def)
  note w = represents_written [OF rep]
  have "\<forall>to_f g. hist_loop to_f g n acht 0 [] =
      Inr (map (\<lambda>c. entry_of to_f g c (accumulated ?xs c)) (map color (table_nodes acht)))"
    unfolding n by (intro allI w(5))
  with pm ok w(1) w(2) w(3) w(4) n cap fs show ?thesis by auto
qed

subsection \<open>The header of the histogram\<close>




subsection \<open>Weights without an importance map\<close>

lemma accumulated_ones:
  assumes ones: "\<forall>x \<in> set xs. snd x = 1" and cnt: "count_list (map fst xs) c \<le> 16777216"
  shows "accumulated xs c = real (count_list (map fst xs) c)"
proof -
  from ones have "map snd (filter (\<lambda>x. fst x = c) xs) =
      replicate (count_list (map fst xs) c) 1"
  proof (induction xs)
    case Nil
    show ?case by simp
  next
    case (Cons x xs)
    then show ?case by (cases "fst x = c") simp_all
  qed
  with faccum_ones [OF cnt] show ?thesis by (simp add: accumulated_def)
qed

lemma count_list_total:
  "distinct cs \<Longrightarrow> set cs = set ys \<Longrightarrow> sum_list (map (count_list ys) cs) = length ys"
  using sum_count_set [of ys "set cs"] by (simp add: sum_list_distinct_conv_sum_set)

lemma count_list_total_real:
  assumes "distinct cs" "set cs = set ys"
  shows "sum_list (map (\<lambda>c. real (count_list ys c)) cs) = real (length ys)"
proof -
  have "sum_list (map (\<lambda>c. real (count_list ys c)) cs) = real (sum_list (map (count_list ys) cs))"
    by (induction cs) simp_all
  with count_list_total [OF assms] show ?thesis by simp
qed

subsection \<open>Images of a single colour\<close>

lemma single_colour_table:
  assumes pm: "posterize_mask ib = Inr pmask" and ok: "image_ok apixels cols rows imp"
    and dims: "1 \<le> cols" "1 \<le> rows" and cap: "1 \<le> maxc"
    and flat: "posterized pmask apixels (scan_order cols rows) = replicate (nat cols * nat rows) c"
  shows "\<exists>acht. pam_computeacolorhash apixels cols rows gamma maxc ib imp =
                   Inr (Value (acht, 1)) \<and>
           table_nodes acht =
             [\<lparr>color = c, perceptual_weight_achl = faccum (boosts imp (nat cols * nat rows))\<rparr>] \<and>
           (\<forall>to_f g. hist_loop to_f g 1 acht 0 [] =
              Inr [entry_of to_f g c (faccum (boosts imp (nat cols * nat rows)))])"
proof -
  let ?ps = "scan_order cols rows"
  let ?xs = "pixel_stream pmask apixels imp ?ps"
  let ?w = "faccum (boosts imp (nat cols * nat rows))"
  from ok have rd: "readable apixels imp ?ps" by (simp add: image_ok_def)
  from dims have "0 < nat cols * nat rows" by simp
  then have ne: "replicate (nat cols * nat rows) c \<noteq> []" by simp
  have fs: "map fst ?xs = posterized pmask apixels ?ps" by (rule readable_stream_fst [OF rd])
  from ne have st: "set (map fst ?xs) = {c}"
    unfolding fs flat by simp
  then have img: "fst ` set ?xs = {c}" by simp
  from cap st have fits: "\<not> over_cap maxc ?xs"
    by (simp add: over_cap_def)
  from computeacolorhash_fits [OF pm ok fits, of gamma] obtain acht where
    hash: "pam_computeacolorhash apixels cols rows gamma maxc ib imp =
      Inr (Value (acht, int (card (fst ` set ?xs))))" and
    rep: "represents (buckets acht) ?xs"
    by blast
  note w = represents_written(1-4) [OF rep]
  from w(3) img obtain achl where ns: "table_nodes acht = [achl]"
    by (cases "table_nodes acht") auto
  from w(2) img ns have c0: "color achl = c" by simp
  have "filter (\<lambda>x. fst x = c) ?xs = ?xs"
    using img by (auto simp: filter_id_conv)
  then have "accumulated ?xs c = faccum (map snd ?xs)"
    by (simp add: accumulated_def)
  also have "map snd ?xs = boosts imp (nat cols * nat rows)"
    by (simp add: readable_stream_snd [OF rd] length_scan_order)
  finally have acc: "accumulated ?xs c = ?w" .
  from w(4) ns c0 acc have wt: "perceptual_weight_achl achl = ?w" by simp
  from c0 wt have node: "achl = \<lparr>color = c, perceptual_weight_achl = ?w\<rparr>"
    by (cases achl) simp
  have "hist_loop to_f g 1 acht 0 [] = Inr [entry_of to_f g c ?w]" for to_f g
    using represents_written(5) [OF rep, of to_f g] by (simp add: img ns c0 acc)
  with hash ns node show ?thesis
    by (intro exI [of _ acht]) (simp add: img)
qed

text \<open>The image of one row of \<open>N\<close> equal pixels.\<close>

lemma flat_image_ok: "image_ok [replicate N p] (int N) 1 None"
  by (auto simp: image_ok_def readable_def scan_order_def list_all_iff)

lemma flat_image_posterized:
  "posterized pmask [replicate N p] (scan_order (int N) 1) =
     replicate (nat (int N) * nat 1) (rgb_as_long_l p AND pmask)"
  by (rule replicate_eqI) (auto simp: posterized_def scan_order_def)

lemma flat_image_nodes:
  assumes pm: "posterize_mask ib = Inr pmask" and n: "0 < N" and cap: "1 \<le> maxc"
  shows "returned_nodes (pam_computeacolorhash [replicate N p] (int N) 1 gamma maxc ib None) =
     [\<lparr>color = rgb_as_long_l p AND pmask, perceptual_weight_achl = faccum (replicate N 1)\<rparr>]"
proof -
  from n have dims: "1 \<le> int N" "(1 :: int) \<le> 1" by simp_all
  from single_colour_table [OF pm flat_image_ok dims cap flat_image_posterized, of p gamma]
  show ?thesis by (auto simp: returned_nodes_def boosts_def)
qed

lemma saturated_image_nodes:
  assumes pm: "posterize_mask ib = Inr pmask" and cap: "1 \<le> maxc"
  shows "returned_nodes (pam_computeacolorhash [replicate 16777217 p] 16777217 1 gamma maxc ib None) =
     [\<lparr>color = rgb_as_long_l p AND pmask, perceptual_weight_achl = 16777216\<rparr>]"
proof -
  have "returned_nodes (pam_computeacolorhash [replicate (16777216 + 1) p] (int (16777216 + 1)) 1
      gamma maxc ib None) =
     [\<lparr>color = rgb_as_long_l p AND pmask,
       perceptual_weight_achl = faccum (replicate (16777216 + 1) 1)\<rparr>]"
    by (rule flat_image_nodes [OF pm _ cap]) simp
  then show ?thesis
    by (simp only: faccum_ones_saturated) simp
qed

subsection \<open>The posterization mask\<close>

lemma channel_mask_bits:
  "channel_mask ib = Inr cm \<Longrightarrow> bit cm i \<longleftrightarrow> nat ib \<le> i \<and> i < 8"
proof -
  assume a: "channel_mask ib = Inr cm"
  then have rng: "0 \<le> ib" "ib < 32"
    and cm: "cm = word_of_int (push_bit (nat ib) (drop_bit (nat ib) (255 :: int)))"
    by (auto simp: channel_mask_def split: if_splits)
  have m: "(255 :: int) = mask 8" by (simp add: mask_eq_exp_minus_1)
  have "bit (push_bit (nat ib) (drop_bit (nat ib) (255 :: int))) i \<longleftrightarrow> nat ib \<le> i \<and> i < 8"
    unfolding m by (auto simp: bit_push_bit_iff bit_drop_bit_eq bit_mask_iff)
  then show ?thesis
    unfolding cm by (auto simp: bit_word_of_int_iff)
qed

lemma posterize_mask_mono:
  assumes "posterize_mask ib1 = Inr pm1" "posterize_mask ib2 = Inr pm2" "ib1 \<le> ib2"
  shows "pm1 AND pm2 = pm2"
proof -
  from assms(1) obtain cm1 where cm1: "channel_mask ib1 = Inr cm1"
    and pm1: "pm1 = (push_bit 24 cm1 OR push_bit 16 cm1 OR push_bit 8 cm1 OR cm1)"
    by (auto simp: posterize_mask_def split: sum.splits)
  from assms(2) obtain cm2 where cm2: "channel_mask ib2 = Inr cm2"
    and pm2: "pm2 = (push_bit 24 cm2 OR push_bit 16 cm2 OR push_bit 8 cm2 OR cm2)"
    by (auto simp: posterize_mask_def split: sum.splits)
  have "cm1 AND cm2 = cm2"
  proof (rule bit_eqI)
    fix i
    from assms(3) have "nat ib1 \<le> nat ib2" by simp
    then show "bit (cm1 AND cm2) i \<longleftrightarrow> bit cm2 i"
      by (auto simp: bit_and_iff channel_mask_bits [OF cm1] channel_mask_bits [OF cm2])
  qed
  then have le: "\<And>j. bit cm2 j \<Longrightarrow> bit cm1 j"
    by (metis bit_and_iff)
  show ?thesis
  proof (rule bit_eqI)
    fix i
    show "bit (pm1 AND pm2) i \<longleftrightarrow> bit pm2 i"
      unfolding pm1 pm2
      by (auto simp: bit_and_iff bit_or_iff bit_push_bit_iff dest: le)
  qed
qed

lemma posterize_mask_ge8:
  assumes "8 \<le> ib" "ib < 32"
  shows "posterize_mask ib = Inr 0"
proof -
  from assms obtain cm where cm: "channel_mask ib = Inr cm"
    by (simp add: channel_mask_def)
  have "cm = 0"
  proof (rule bit_eqI)
    fix i
    from assms have "8 \<le> nat ib" by simp
    then show "bit cm i \<longleftrightarrow> bit (0 :: 32 word) i"
      by (auto simp: channel_mask_bits [OF cm])
  qed
  with cm show ?thesis by (simp add: posterize_mask_def)
qed

lemma posterize_mask_defined:
  "0 \<le> ib \<Longrightarrow> ib < 32 \<Longrightarrow> \<exists>pm. posterize_mask ib = Inr pm"
  by (simp add: posterize_mask_def channel_mask_def)

lemma posterize_mask_undefined:
  "\<not> (0 \<le> ib \<and> ib < 32) \<Longrightarrow> posterize_mask ib = Inl Undefined_shift"
  by (auto simp: posterize_mask_def channel_mask_def)

subsection \<open>Running the loops on the sample images\<close>

lemma concat_map_fun_upd:
  "concat (map (f(h := c)) [m..<n]) =
     (if m \<le> h \<and> h < n then concat (map f [m..<h]) @ c @ concat (map f [Suc h..<n])
      else concat (map f [m..<n]))"
proof (cases "m \<le> h \<and> h < n")
  case True
  then have "[m..<n] = [m..<h] @ h # [Suc h..<n]"
    by (metis le_add_diff_inverse less_imp_le_nat upt_add_eq_append upt_conv_Cons)
  then show ?thesis using True by simp
next
  case False
  then have "\<forall>i \<in> set [m..<n]. (f(h := c)) i = f i" by auto
  then have eq: "map (f(h := c)) [m..<n] = map f [m..<n]" by (simp cong: map_cong)
  show ?thesis by (simp only: False if_False eq)
qed

lemma concat_map_Nil: "concat (map (\<lambda>i. []) xs) = []"
  by (induction xs) simp_all

lemma hist_loop_eval:
  "int (length (table_nodes acht)) \<le> hs \<Longrightarrow>
   hist_loop to_f gamma hs acht 0 [] =
     Inr (map (\<lambda>achl. entry_of to_f gamma (color achl) (perceptual_weight_achl achl))
            (table_nodes acht))"
  using hist_loop_fits [of "[]" acht 0 hs to_f gamma] by (simp add: table_nodes_def)

lemmas eval_scan = pam_computeacolorhash_def posterize_mask_def channel_mask_def
  row_loop.simps col_loop.simps next_boost_def pixel_at_def hash_pixel_def Let_def
  rgb_as_long_l_def rgb_def pam_allocacolorhash_def
  mempool_new_def pam_freeacolorhash_def mempool_free_def HASH_SIZE_def
  fl32_values fl64_values fl32_ties

lemmas eval_nodes = table_nodes_def concat_map_fun_upd concat_map_Nil

lemmas eval_hist = entry_of_def to_f_sample_def rgb_as_long_rgb_def hist_entry_def

lemma table4_nodes:
  "table_nodes table4 =
     [\<lparr>color = 151587081, perceptual_weight_achl = 1\<rparr>,
      \<lparr>color = 4278387200, perceptual_weight_achl = 1\<rparr>,
      \<lparr>color = 4278387201, perceptual_weight_achl = 2\<rparr>]"
  unfolding table4_def
  by (simp add: eval_nodes del: upt_rec_numeral) (simp add: HASH_SIZE_def del: upt_rec_numeral)

lemma table4_coarse_nodes:
  "table_nodes table4_coarse =
     [\<lparr>color = 134744072, perceptual_weight_achl = 3/4\<rparr>,
      \<lparr>color = 4261544448, perceptual_weight_achl = 3\<rparr>]"
  unfolding table4_coarse_def
  by (simp add: eval_nodes del: upt_rec_numeral) (simp add: HASH_SIZE_def del: upt_rec_numeral)

lemma image4_hash_0: "pam_computeacolorhash image4 2 2 1 10 0 None = Inr (Value (table4, 3))"
  by (simp add: eval_scan image4_def table4_def)

lemma image4_hash_1:
  "pam_computeacolorhash image4 2 2 1 10 1 (Some [0, 1/2, 1, 1/4]) =
     Inr (Value (table4_coarse, 2))"
  by (simp add: eval_scan image4_def table4_coarse_def)

lemma image4_written_0: "hist_loop to_f_sample 1 3 table4 0 [] = Inr written4"
  by (subst hist_loop_eval) (simp_all add: table4_nodes written4_def eval_hist)

lemma image4_written_1: "hist_loop to_f_sample 1 2 table4_coarse 0 [] = Inr written4_coarse"
  by (subst hist_loop_eval) (simp_all add: table4_coarse_nodes written4_coarse_def eval_hist)

lemma image4_hash_over: "pam_computeacolorhash image4 2 2 1 2 0 None = Inr (Null [])"
  by (simp add: eval_scan image4_def)

lemma image2_hash_over: "pam_computeacolorhash image2 2 2 1 1 0 None = Inr (Null [])"
  by (simp add: eval_scan image2_def)

lemma image4_hash_8:
  "pam_computeacolorhash image4 2 2 1 1 8 (Some [0, 1/2, 1, 1/4]) =
     Inr (Value (\<lparr>buckets = (\<lambda>i. [])(0 := [\<lparr>color = 0, perceptual_weight_achl = 15/4\<rparr>]),
          mempool = [Table_block, Buckets_block, Item_block]\<rparr>, 1))"
  by (simp add: eval_scan image4_def)

text \<open>Three runs in which a binary32 sum is rounded.\<close>

lemma image2_hash_tiny:
  "pam_computeacolorhash image2 1 1 1 10 0 (Some [1 / 33554432]) =
     Inr (Value (\<lparr>buckets = (\<lambda>i. [])
            (5426 := [\<lparr>color = 4278387201, perceptual_weight_achl = 1 / 2\<rparr>]),
          mempool = [Table_block, Buckets_block, Item_block]\<rparr>, 1))"
  by (simp add: eval_scan image2_def)

lemma image2_hash_rounded:
  "pam_computeacolorhash image2 2 1 1 10 1 (Some [1 / 2, 1 / 16777216]) =
     Inr (Value (\<lparr>buckets = (\<lambda>i. [])
            (8942 := [\<lparr>color = 4261544448, perceptual_weight_achl = 3 / 2\<rparr>]),
          mempool = [Table_block, Buckets_block, Item_block]\<rparr>, 1))"
  by (simp add: eval_scan image2_def)

lemma image2_hash_rounded_8:
  "pam_computeacolorhash image2 2 1 1 10 8 (Some [1 / 2, 1 / 16777216]) =
     Inr (Value (\<lparr>buckets = (\<lambda>i. [])(0 := [\<lparr>color = 0, perceptual_weight_achl = 3 / 2\<rparr>]),
          mempool = [Table_block, Buckets_block, Item_block]\<rparr>, 1))"
  by (simp add: eval_scan image2_def)

lemma image2_nodes_tiny:
  "returned_nodes (pam_computeacolorhash image2 1 1 1 10 0 (Some [1 / 33554432])) =
     [\<lparr>color = 4278387201, perceptual_weight_achl = 1 / 2\<rparr>]"
  unfolding image2_hash_tiny returned_nodes_def
  by (simp add: eval_nodes del: upt_rec_numeral) (simp add: HASH_SIZE_def del: upt_rec_numeral)

lemma image2_nodes_rounded:
  "returned_nodes (pam_computeacolorhash image2 2 1 1 10 1 (Some [1 / 2, 1 / 16777216])) =
     [\<lparr>color = 4261544448, perceptual_weight_achl = 3 / 2\<rparr>]"
  unfolding image2_hash_rounded returned_nodes_def
  by (simp add: eval_nodes del: upt_rec_numeral) (simp add: HASH_SIZE_def del: upt_rec_numeral)

lemma image2_nodes_rounded_8:
  "returned_nodes (pam_computeacolorhash image2 2 1 1 10 8 (Some [1 / 2, 1 / 16777216])) =
     [\<lparr>color = 0, perceptual_weight_achl = 3 / 2\<rparr>]"
  unfolding image2_hash_rounded_8 returned_nodes_def
  by (simp add: eval_nodes del: upt_rec_numeral) (simp add: HASH_SIZE_def del: upt_rec_numeral)



lemma scan_order_2_2: "scan_order 2 2 = [(0, 0), (0, 1), (1, 0), (1, 1)]"
  by (simp add: scan_order_def upt_rec)

lemma image4_ok: "image_ok image4 2 2 None" "image_ok image4 2 2 (Some [0, 1/2, 1, 1/4])"
  by (simp_all add: image_ok_def readable_def scan_order_2_2 image4_def)

lemma image4_posterized_0:
  "posterized (- 1) image4 (scan_order 2 2) = [4278387201, 4278387201, 4278387200, 151587081]"
  by (simp add: posterized_def scan_order_2_2 image4_def rgb_def rgb_as_long_l_def)

lemma mask_0: "posterize_mask 0 = Inr (- 1)"
  by (simp add: posterize_mask_def channel_mask_def)

lemma mask_1: "posterize_mask 1 = Inr 4278124286"
  by (simp add: posterize_mask_def channel_mask_def)

subsection \<open>Overflow\<close>




subsection \<open>Weights\<close>

text \<open>
  C3, as the specification states it, fails: the weights are \<^verbatim>\<open>float\<close> values. A boost is
  the binary32 value of \<open>0.5 + importance\<close>, not that sum, and a weight is the binary32
  accumulation of the boosts of its colour, in scan order, not their sum: from \<open>2\<^sup>2\<^sup>4\<close> on it
  no longer grows by a boost of 1.0. The amended claim: when the hash pass returns a table,
  the table has one node for each distinct posterized colour of the image, the loops of
  lines 156-164 write one entry for each, and the \<open>perceptual_weight\<close> of each entry is the
  accumulation of the boosts of the pixels of its colour, each sum rounded to binary32.
  Without an importance map and with no colour on more than \<open>2\<^sup>2\<^sup>4\<close> pixels, each weight is
  the number of pixels of its colour and the weights add up to \<open>cols * rows\<close>.
\<close>

theorem weight_conservation:
  assumes "pam_computeacolorhash apixels cols rows gamma maxacolors ignorebits importance_map =
             Inr (Value (acht, n))"
  shows "\<exists>pmask cs written. posterize_mask ignorebits = Inr pmask \<and>
           distinct cs \<and> set cs = set (posterized pmask apixels (scan_order cols rows)) \<and>
           map color (table_nodes acht) = cs \<and>
           map perceptual_weight_achl (table_nodes acht) =
             map (accumulated (pixel_stream pmask apixels importance_map (scan_order cols rows)))
               cs \<and>
           hist_loop to_f hist_gamma n acht 0 [] = Inr written \<and>
           map perceptual_weight written =
             map (accumulated (pixel_stream pmask apixels importance_map (scan_order cols rows)))
               cs \<and>
           (importance_map = None \<and>
            (\<forall>c. count_list (posterized pmask apixels (scan_order cols rows)) c \<le> 16777216) \<longrightarrow>
              map perceptual_weight written =
                map (\<lambda>c. real (count_list (posterized pmask apixels (scan_order cols rows)) c)) cs \<and>
              sum_list (map perceptual_weight written) = real (nat cols * nat rows)) \<and>
           (importance_map = None \<and>
            (\<forall>c. count_list (posterized pmask apixels (scan_order cols rows)) c \<le> 16777216) \<and>
            0 \<le> cols \<and> 0 \<le> rows \<longrightarrow>
              sum_list (map perceptual_weight written) = real_of_int (cols * rows))"
proof -
  from computeacolorhash_Value_stream [OF assms] obtain pmask where
    pm: "posterize_mask ignorebits = Inr pmask" and
    ok: "image_ok apixels cols rows importance_map" and
    d: "distinct (map color (table_nodes acht))" and
    s: "set (map color (table_nodes acht)) = set (posterized pmask apixels (scan_order cols rows))" and
    nw: "map perceptual_weight_achl (table_nodes acht) =
          map (accumulated (pixel_stream pmask apixels importance_map (scan_order cols rows)))
            (map color (table_nodes acht))" and
    hl: "\<forall>to_f g. hist_loop to_f g n acht 0 [] =
          Inr (map (\<lambda>c. entry_of to_f g c
                  (accumulated (pixel_stream pmask apixels importance_map (scan_order cols rows)) c))
                 (map color (table_nodes acht)))"
    by blast
  let ?ps = "scan_order cols rows"
  let ?xs = "pixel_stream pmask apixels importance_map ?ps"
  let ?ys = "posterized pmask apixels ?ps"
  let ?cs = "map color (table_nodes acht)"
  let ?written = "map (\<lambda>c. entry_of to_f hist_gamma c (accumulated ?xs c)) ?cs"
  from ok have rd: "readable apixels importance_map ?ps" by (simp add: image_ok_def)
  from hl have run: "hist_loop to_f hist_gamma n acht 0 [] = Inr ?written" by blast
  have w: "map perceptual_weight ?written = map (accumulated ?xs) ?cs"
    by (simp add: entry_of_def comp_def)
  have fs: "map fst ?xs = ?ys" by (rule readable_stream_fst [OF rd])
  have plain: "map perceptual_weight ?written = map (\<lambda>c. real (count_list ?ys c)) ?cs \<and>
      sum_list (map perceptual_weight ?written) = real (nat cols * nat rows)"
    if none: "importance_map = None" and bound: "\<forall>c. count_list ?ys c \<le> 16777216"
  proof -
    have ones: "\<forall>x \<in> set ?xs. snd x = 1"
      unfolding none by (auto simp: pixel_stream_def boosts_def dest: set_zip_rightD)
    have acc: "accumulated ?xs c = real (count_list ?ys c)" for c
      using accumulated_ones [OF ones, of c] bound by (simp only: fs)
    have "map (accumulated ?xs) ?cs = map (\<lambda>c. real (count_list ?ys c)) ?cs"
      by (simp add: acc)
    with w have m: "map perceptual_weight ?written = map (\<lambda>c. real (count_list ?ys c)) ?cs"
      by (rule trans)
    have "sum_list (map (\<lambda>c. real (count_list ?ys c)) ?cs) = real (length ?ys)"
      by (rule count_list_total_real [OF d s])
    also have "length ?ys = nat cols * nat rows"
      by (simp add: posterized_def length_scan_order)
    finally have t: "sum_list (map (\<lambda>c. real (count_list ?ys c)) ?cs) =
        real (nat cols * nat rows)" .
    have "sum_list (map perceptual_weight ?written) = real (nat cols * nat rows)"
      unfolding m by (rule t)
    with m show ?thesis by (rule conjI)
  qed
  have "0 \<le> cols \<and> 0 \<le> rows \<longrightarrow> real (nat cols * nat rows) = real_of_int (cols * rows)"
    by (simp add: nat_mult_distrib)
  with plain have dims: "importance_map = None \<and> (\<forall>c. count_list ?ys c \<le> 16777216) \<and>
      0 \<le> cols \<and> 0 \<le> rows \<longrightarrow>
      sum_list (map perceptual_weight ?written) = real_of_int (cols * rows)"
    by simp
  from pm d s nw run w plain dims show ?thesis by blast
qed

text \<open>
  A single pixel of importance \<open>2\<^sup>-\<^sup>2\<^sup>5\<close> gets the weight \<open>1/2\<close>, not \<open>1/2 + 2\<^sup>-\<^sup>2\<^sup>5\<close>. Two pixels of
  one colour with the importances \<open>1/2\<close> and \<open>2\<^sup>-\<^sup>2\<^sup>4\<close> have the boosts 1 and \<open>1/2 + 2\<^sup>-\<^sup>2\<^sup>4\<close>,
  both binary32 values, and get the weight \<open>3/2\<close>, not the sum of the boosts. A row of
  \<open>2\<^sup>2\<^sup>4 + 1\<close> pixels of one colour without an importance map gets the weight \<open>2\<^sup>2\<^sup>4\<close>, not
  \<open>cols * rows\<close>.
\<close>

theorem weight_sum_rounded:
  "returned_nodes (pam_computeacolorhash image2 1 1 1 10 0 (Some [1 / 33554432])) =
     [\<lparr>color = 4278387201, perceptual_weight_achl = 1 / 2\<rparr>] \<and>
   (1 / 2 :: real) \<noteq> 1 / 2 + 1 / 33554432 \<and>
   returned_nodes (pam_computeacolorhash image2 2 1 1 10 1 (Some [1 / 2, 1 / 16777216])) =
     [\<lparr>color = 4261544448, perceptual_weight_achl = 3 / 2\<rparr>] \<and>
   boosts (Some [1 / 2, 1 / 16777216]) 2 = [1, 8388609 / 16777216] \<and>
   (3 / 2 :: real) \<noteq> 1 + 8388609 / 16777216 \<and>
   (3 / 2 :: real) \<noteq> (1 / 2 + 1 / 2) + (1 / 2 + 1 / 16777216) \<and>
   returned_nodes (pam_computeacolorhash [replicate 16777217 (rgb 1 2 3 255)] 16777217 1 1 10 0 None) =
     [\<lparr>color = 4278387201, perceptual_weight_achl = 16777216\<rparr>] \<and>
   (16777216 :: real) \<noteq> real_of_int (16777217 * 1)"
proof -
  have big: "returned_nodes
      (pam_computeacolorhash [replicate 16777217 (rgb 1 2 3 255)] 16777217 1 1 10 0 None) =
     [\<lparr>color = 4278387201, perceptual_weight_achl = 16777216\<rparr>]"
    using saturated_image_nodes [OF mask_0, of 10 "rgb 1 2 3 255" 1]
    by (simp add: rgb_def rgb_as_long_l_def)
  show ?thesis
    unfolding image2_nodes_tiny image2_nodes_rounded big
    by (simp add: boosts_def fl32_values fl64_values)
qed

theorem weight_conservation_witness:
  "pam_computeacolorhash image4 2 2 1 10 1 (Some [0, 1/2, 1, 1/4]) =
     Inr (Value (table4_coarse, 2)) \<and>
   hist_loop to_f_sample 1 2 table4_coarse 0 [] = Inr written4_coarse \<and>
   map perceptual_weight written4_coarse =
     map (accumulated (pixel_stream 4278124286 image4 (Some [0, 1/2, 1, 1/4]) (scan_order 2 2)))
       [134744072, 4261544448] \<and>
   pam_computeacolorhash image4 2 2 1 10 0 None = Inr (Value (table4, 3)) \<and>
   hist_loop to_f_sample 1 3 table4 0 [] = Inr written4 \<and>
   sum_list (map perceptual_weight written4) = real_of_int (2 * 2)"
proof -
  from weight_conservation [OF image4_hash_1, of to_f_sample 1]
  obtain pmask cs written where
    pm: "posterize_mask 1 = Inr pmask" and
    cs: "map color (table_nodes table4_coarse) = cs" and
    run: "hist_loop to_f_sample 1 2 table4_coarse 0 [] = Inr written" and
    wts: "map perceptual_weight written =
      map (accumulated (pixel_stream pmask image4 (Some [0, 1/2, 1, 1/4]) (scan_order 2 2))) cs"
    by blast
  from pm have "pmask = 4278124286" by (simp add: mask_1)
  moreover from run have "written = written4_coarse" by (simp add: image4_written_1)
  moreover from cs have "cs = [134744072, 4261544448]" by (simp add: table4_coarse_nodes)
  ultimately have s1: "map perceptual_weight written4_coarse =
     map (accumulated (pixel_stream 4278124286 image4 (Some [0, 1/2, 1, 1/4]) (scan_order 2 2)))
       [134744072, 4261544448]"
    using wts by simp
  have bound: "\<forall>c. count_list (posterized (- 1) image4 (scan_order 2 2)) c \<le> 16777216"
    by (simp add: image4_posterized_0)
  from weight_conservation [OF image4_hash_0, of to_f_sample 1]
  obtain pmask' written' where
    pm': "posterize_mask 0 = Inr pmask'" and
    run': "hist_loop to_f_sample 1 3 table4 0 [] = Inr written'" and
    tot: "(None :: real list option) = None \<and>
      (\<forall>c. count_list (posterized pmask' image4 (scan_order 2 2)) c \<le> 16777216) \<and>
      (0 :: int) \<le> 2 \<and> (0 :: int) \<le> 2 \<longrightarrow>
      sum_list (map perceptual_weight written') = real_of_int (2 * 2)"
    by blast
  from pm' have "pmask' = - 1" by (simp add: mask_0)
  moreover from run' have "written' = written4" by (simp add: image4_written_0)
  ultimately have s0: "sum_list (map perceptual_weight written4) = real_of_int (2 * 2)"
    using tot bound by simp
  from image4_hash_1 image4_written_1 s1 image4_hash_0 image4_written_0 s0
  show ?thesis by simp
qed

subsection \<open>Distinct colours\<close>



subsection \<open>Coarser posterization\<close>

text \<open>
  C5, as stated for every \<open>ignorebits2 \<ge> ignorebits1\<close>, fails where a shift count is
  outside \<open>0..31\<close>: the mask is undefined there and the hash pass produces no count. The
  amended claim: for a fixed image and \<open>0 \<le> ignorebits1 \<le> ignorebits2 \<le> 31\<close> both masks are
  defined and the number of distinct posterized colours with \<open>ignorebits2\<close> is at most the
  number with \<open>ignorebits1\<close>; and whenever the hash pass returns a table for both, the
  colour count it returns with \<open>ignorebits2\<close> is at most the one with \<open>ignorebits1\<close>.
\<close>

theorem posterization_monotone:
  "(0 \<le> ignorebits1 \<and> ignorebits1 \<le> ignorebits2 \<and> ignorebits2 < 32 \<longrightarrow>
      (\<exists>pmask1 pmask2. posterize_mask ignorebits1 = Inr pmask1 \<and>
         posterize_mask ignorebits2 = Inr pmask2 \<and>
         card (set (posterized pmask2 apixels (scan_order cols rows))) \<le>
         card (set (posterized pmask1 apixels (scan_order cols rows))))) \<and>
   (pam_computeacolorhash apixels cols rows gamma1 maxacolors1 ignorebits1 importance_map1 =
      Inr (Value (acht1, n1)) \<and>
    pam_computeacolorhash apixels cols rows gamma2 maxacolors2 ignorebits2 importance_map2 =
      Inr (Value (acht2, n2)) \<and>
    ignorebits1 \<le> ignorebits2 \<longrightarrow>
      n2 \<le> n1 \<and> length (table_nodes acht2) \<le> length (table_nodes acht1))"
proof (intro conjI impI)
  have count: "card (set (posterized p2 apixels (scan_order cols rows))) \<le>
      card (set (posterized p1 apixels (scan_order cols rows)))"
    if "posterize_mask ignorebits1 = Inr p1" "posterize_mask ignorebits2 = Inr p2"
      "ignorebits1 \<le> ignorebits2" for p1 p2
  proof -
    from that have "p1 AND p2 = p2" by (rule posterize_mask_mono)
    then have "set (posterized p2 apixels (scan_order cols rows)) =
        (\<lambda>c. c AND p2) ` set (posterized p1 apixels (scan_order cols rows))"
      by (simp add: posterized_coarser)
    then show ?thesis by (simp add: card_image_le)
  qed
  {
    assume a: "0 \<le> ignorebits1 \<and> ignorebits1 \<le> ignorebits2 \<and> ignorebits2 < 32"
    then obtain p1 p2 where "posterize_mask ignorebits1 = Inr p1"
      "posterize_mask ignorebits2 = Inr p2"
      using posterize_mask_defined [of ignorebits1] posterize_mask_defined [of ignorebits2]
      by auto
    with a count [of p1 p2]
    show "\<exists>pmask1 pmask2. posterize_mask ignorebits1 = Inr pmask1 \<and>
         posterize_mask ignorebits2 = Inr pmask2 \<and>
         card (set (posterized pmask2 apixels (scan_order cols rows))) \<le>
         card (set (posterized pmask1 apixels (scan_order cols rows)))"
      by blast
  }
  assume a: "pam_computeacolorhash apixels cols rows gamma1 maxacolors1 ignorebits1
      importance_map1 = Inr (Value (acht1, n1)) \<and>
    pam_computeacolorhash apixels cols rows gamma2 maxacolors2 ignorebits2 importance_map2 =
      Inr (Value (acht2, n2)) \<and>
    ignorebits1 \<le> ignorebits2"
  from a computeacolorhash_Value_stream [of apixels cols rows gamma1 maxacolors1 ignorebits1
      importance_map1 acht1 n1]
  obtain p1 where pm1: "posterize_mask ignorebits1 = Inr p1" and
    l1: "n1 = int (length (table_nodes acht1))" and
    c1: "n1 = int (card (set (posterized p1 apixels (scan_order cols rows))))"
    by blast
  from a computeacolorhash_Value_stream [of apixels cols rows gamma2 maxacolors2 ignorebits2
      importance_map2 acht2 n2]
  obtain p2 where pm2: "posterize_mask ignorebits2 = Inr p2" and
    l2: "n2 = int (length (table_nodes acht2))" and
    c2: "n2 = int (card (set (posterized p2 apixels (scan_order cols rows))))"
    by blast
  from a have "ignorebits1 \<le> ignorebits2" by simp
  from count [OF pm1 pm2 this] show "n2 \<le> n1" by (simp add: c1 c2)
  with l1 l2 show "length (table_nodes acht2) \<le> length (table_nodes acht1)" by simp
qed

text \<open>
  From one ignored bit to 32, the hash pass of the sample image goes from two colours to
  an undefined shift, and yields no count to compare.
\<close>

theorem posterization_undefined_at_32:
  "(1 :: int) \<le> 32 \<and>
   returned_colors (pam_computeacolorhash image4 2 2 1 10 1 None) = Some 2 \<and>
   posterize_mask 32 = Inl Undefined_shift \<and>
   pam_computeacolorhash image4 2 2 1 10 32 None = Inl Undefined_shift \<and>
   returned_colors (pam_computeacolorhash image4 2 2 1 10 32 None) = None"
  by (simp add: returned_colors_def eval_scan image4_def)

theorem posterization_monotone_witness:
  "(0 :: int) \<le> 0 \<and> (0 :: int) \<le> 1 \<and> (1 :: int) < 32 \<and>
   posterize_mask 0 = Inr (- 1) \<and> posterize_mask 1 = Inr 4278124286 \<and>
   card (set (posterized 4278124286 image4 (scan_order 2 2))) \<le>
     card (set (posterized (- 1) image4 (scan_order 2 2))) \<and>
   pam_computeacolorhash image4 2 2 1 10 0 None = Inr (Value (table4, 3)) \<and>
   pam_computeacolorhash image4 2 2 1 10 1 (Some [0, 1/2, 1, 1/4]) =
     Inr (Value (table4_coarse, 2)) \<and>
   length (table_nodes table4_coarse) \<le> length (table_nodes table4)"
proof -
  note mono = posterization_monotone [of 0 1 image4 2 2 1 10 None table4 3 1 10
      "Some [0, 1/2, 1, 1/4]" table4_coarse 2]
  from mono have "card (set (posterized 4278124286 image4 (scan_order 2 2))) \<le>
     card (set (posterized (- 1) image4 (scan_order 2 2)))"
    by (auto simp: mask_0 mask_1)
  moreover from mono image4_hash_0 image4_hash_1
  have "length (table_nodes table4_coarse) \<le> length (table_nodes table4)"
    by simp
  ultimately show ?thesis
    using mask_0 mask_1 image4_hash_0 image4_hash_1 by simp
qed

subsection \<open>The adjusted weight\<close>



subsection \<open>Posterizing every bit\<close>

text \<open>
  C9, as stated for every \<open>ignorebits \<ge> 8\<close>, fails from 32 on: the shift count is then
  outside the width of \<^verbatim>\<open>int\<close> and the mask is undefined. It also fails in the weight: the
  one node accumulates the boosts in binary32 and does not hold their sum. The amended
  claim: for \<open>8 \<le> ignorebits \<le> 31\<close> the mask is zero, so every pixel posterizes to the
  packed colour 0; for an image of at least one pixel held by the buffers and
  \<open>max_colors \<ge> 1\<close> the hash pass returns a table of exactly one node, of packed colour 0,
  for which the loops of lines 156-164 write exactly one entry; its weight is the
  accumulation of the boosts of all pixels in scan order, each sum rounded to binary32,
  which without an importance map and for at most \<open>2\<^sup>2\<^sup>4\<close> pixels is the number of pixels.
\<close>

theorem full_posterization_single_entry:
  assumes "8 \<le> ignorebits" "ignorebits < 32"
  shows "posterize_mask ignorebits = Inr 0 \<and>
         posterized 0 apixels (scan_order cols rows) = replicate (nat cols * nat rows) 0 \<and>
         (image_ok apixels cols rows importance_map \<and> 1 \<le> cols \<and> 1 \<le> rows \<and>
          1 \<le> maxacolors \<longrightarrow>
            (\<exists>acht. pam_computeacolorhash apixels cols rows gamma maxacolors ignorebits
                       importance_map = Inr (Value (acht, 1)) \<and>
               table_nodes acht =
                 [\<lparr>color = 0,
                   perceptual_weight_achl = faccum (boosts importance_map (nat cols * nat rows))\<rparr>] \<and>
               hist_loop to_f hist_gamma 1 acht 0 [] =
                 Inr [\<lparr>acolor_hist = to_f hist_gamma (rgb_as_long_rgb 0),
                       adjusted_weight = faccum (boosts importance_map (nat cols * nat rows)),
                       perceptual_weight = faccum (boosts importance_map (nat cols * nat rows))\<rparr>])) \<and>
         (importance_map = None \<and> nat cols * nat rows \<le> 16777216 \<longrightarrow>
            faccum (boosts importance_map (nat cols * nat rows)) = real (nat cols * nat rows))"
proof (intro conjI impI)
  let ?w = "faccum (boosts importance_map (nat cols * nat rows))"
  show pm: "posterize_mask ignorebits = Inr 0" by (rule posterize_mask_ge8 [OF assms])
  show z: "posterized 0 apixels (scan_order cols rows) = replicate (nat cols * nat rows) 0"
    by (simp add: posterized_def map_replicate_const length_scan_order)
  {
    assume "importance_map = None \<and> nat cols * nat rows \<le> 16777216"
    then show "?w = real (nat cols * nat rows)"
      by (simp add: boosts_def faccum_ones)
  }
  assume a: "image_ok apixels cols rows importance_map \<and> 1 \<le> cols \<and> 1 \<le> rows \<and>
          1 \<le> maxacolors"
  then have ok: "image_ok apixels cols rows importance_map" and dims: "1 \<le> cols" "1 \<le> rows"
    and cap: "1 \<le> maxacolors"
    by simp_all
  from single_colour_table [OF pm ok dims cap z, of gamma]
  show "\<exists>acht. pam_computeacolorhash apixels cols rows gamma maxacolors ignorebits
                       importance_map = Inr (Value (acht, 1)) \<and>
               table_nodes acht = [\<lparr>color = 0, perceptual_weight_achl = ?w\<rparr>] \<and>
               hist_loop to_f hist_gamma 1 acht 0 [] =
                 Inr [\<lparr>acolor_hist = to_f hist_gamma (rgb_as_long_rgb 0),
                       adjusted_weight = ?w, perceptual_weight = ?w\<rparr>]"
    by (auto simp: entry_of_def)
qed

text \<open>
  With the shift count 32 the mask is undefined and the hash pass returns no table. With
  eight ignored bits, two pixels with the boosts 1 and \<open>1/2 + 2\<^sup>-\<^sup>2\<^sup>4\<close> give the one node the
  weight \<open>3/2\<close>, which is not the sum of the boosts, and a row of \<open>2\<^sup>2\<^sup>4 + 1\<close> pixels without
  an importance map gives it the weight \<open>2\<^sup>2\<^sup>4\<close>.
\<close>

theorem full_posterization_refuted:
  "posterize_mask 32 = Inl Undefined_shift \<and>
   pam_computeacolorhash image4 2 2 1 10 32 None = Inl Undefined_shift \<and>
   returned_nodes (pam_computeacolorhash image2 2 1 1 10 8 (Some [1 / 2, 1 / 16777216])) =
     [\<lparr>color = 0, perceptual_weight_achl = 3 / 2\<rparr>] \<and>
   sum_list (boosts (Some [1 / 2, 1 / 16777216]) 2) = 25165825 / 16777216 \<and>
   (3 / 2 :: real) \<noteq> 25165825 / 16777216 \<and>
   returned_nodes (pam_computeacolorhash [replicate 16777217 (rgb 9 9 9 9)] 16777217 1 1 10 8 None) =
     [\<lparr>color = 0, perceptual_weight_achl = 16777216\<rparr>] \<and>
   (16777216 :: real) \<noteq> real_of_int (16777217 * 1)"
proof -
  have m: "posterize_mask 8 = Inr 0" by (rule posterize_mask_ge8) simp_all
  have big: "returned_nodes
      (pam_computeacolorhash [replicate 16777217 (rgb 9 9 9 9)] 16777217 1 1 10 8 None) =
     [\<lparr>color = 0, perceptual_weight_achl = 16777216\<rparr>]"
    using saturated_image_nodes [OF m, of 10 "rgb 9 9 9 9" 1] by simp
  show ?thesis
    unfolding image2_nodes_rounded_8 big
    by (simp add: pam_computeacolorhash_def posterize_mask_def channel_mask_def
        boosts_def fl32_values fl64_values)
qed

theorem full_posterization_single_entry_witness:
  "(8 :: int) \<le> 8 \<and> (8 :: int) < 32 \<and> posterize_mask 8 = Inr 0 \<and>
   image_ok image4 2 2 (Some [0, 1/2, 1, 1/4]) \<and> (1 :: int) \<le> 2 \<and> (1 :: int) \<le> 1 \<and>
   pam_computeacolorhash image4 2 2 1 1 8 (Some [0, 1/2, 1, 1/4]) =
     Inr (Value (\<lparr>buckets = (\<lambda>i. [])(0 := [\<lparr>color = 0, perceptual_weight_achl = 15/4\<rparr>]),
          mempool = [Table_block, Buckets_block, Item_block]\<rparr>, 1)) \<and>
   faccum (boosts (Some [0, 1/2, 1, 1/4]) (nat 2 * nat 2)) = 15 / 4 \<and>
   hist_loop to_f_sample 1 1
     \<lparr>buckets = (\<lambda>i. [])(0 := [\<lparr>color = 0, perceptual_weight_achl = 15/4\<rparr>]),
      mempool = [Table_block, Buckets_block, Item_block]\<rparr> 0 [] =
     Inr [hist_entry 0 0 0 0 (15/4)] \<and>
   image_ok image4 2 2 None \<and> nat 2 * nat 2 \<le> (16777216 :: nat) \<and>
   faccum (boosts None (nat 2 * nat 2)) = real (nat 2 * nat 2)"
proof -
  have h1: "(8 :: int) \<le> 8" and h2: "(8 :: int) < 32" by simp_all
  note single = full_posterization_single_entry [OF h1 h2,
      of image4 2 2 "Some [0, 1/2, 1, 1/4]" 1 1 to_f_sample 1]
  note plain = full_posterization_single_entry [OF h1 h2, of image4 2 2 None 1 1 to_f_sample 1]
  from single have m: "posterize_mask 8 = Inr 0" by blast
  have f4: "faccum (boosts (Some [0, 1/2, 1, 1/4]) 4) = 15 / 4"
    by (simp add: boosts_def faccum_def fl32_values fl64_values)
  then have f: "faccum (boosts (Some [0, 1/2, 1, 1/4]) (nat 2 * nat 2)) = 15 / 4"
    by simp
  from single image4_ok(2)
  have "hist_loop to_f_sample 1 1
     \<lparr>buckets = (\<lambda>i. [])(0 := [\<lparr>color = 0, perceptual_weight_achl = 15/4\<rparr>]),
      mempool = [Table_block, Buckets_block, Item_block]\<rparr> 0 [] =
     Inr [hist_entry 0 0 0 0 (15/4)]"
    by (auto simp: image4_hash_8 f4 to_f_sample_def rgb_as_long_rgb_def hist_entry_def)
  moreover from plain have "faccum (boosts None (nat 2 * nat 2)) = real (nat 2 * nat 2)"
    by simp
  ultimately show ?thesis
    using m image4_ok image4_hash_8 f by simp
qed

end
